theory Spec2Isabelle
  imports Complex_Main "HOL-Library.Multiset"
begin

section \<open>Data model of slideshow.py\<close>

text \<open>
  A tag set is a Python \<^verbatim>\<open>set\<close> of \<^verbatim>\<open>str\<close>; a slide is the pair
  \<^verbatim>\<open>(photo_indices, tags)\<close> that \<^verbatim>\<open>read_input\<close> appends to \<^verbatim>\<open>photos\<close>.
  Photo indices are the values \<^verbatim>\<open>i - 1\<close> for \<^verbatim>\<open>i\<close> in \<^verbatim>\<open>range(1, N + 1)\<close>, hence
  never negative, and are modelled as \<open>nat\<close>. Python's \<^verbatim>\<open>len\<close> returns an unbounded
  integer, modelled as \<open>int\<close>. Exceptions are values of \<open>py_error\<close>; a function that
  can raise returns \<open>py_error + 'a\<close>.
\<close>

type_synonym tags = "string set"
type_synonym slide = "nat list \<times> tags"

datatype py_error = IndexError | KeyError | ValueError | OSError

definition len_set :: "tags \<Rightarrow> int" where
  "len_set A = int (card A)"

section \<open>Interest score (\<^verbatim>\<open>compute_interest\<close>)\<close>

text \<open>
  \<^verbatim>\<open>return min(len(tags1 & tags2), len(tags1 - tags2), len(tags2 - tags1))\<close>
\<close>

definition compute_interest :: "tags \<Rightarrow> tags \<Rightarrow> int" where
  "compute_interest tags1 tags2 =
     min (len_set (tags1 \<inter> tags2)) (min (len_set (tags1 - tags2)) (len_set (tags2 - tags1)))"

section \<open>Input parser and vertical pairing (\<^verbatim>\<open>read_input\<close>)\<close>

text \<open>
  The characters of the model are code points below 256. Among them Python's
  \<^verbatim>\<open>str.isspace\<close>, which \<^verbatim>\<open>strip()\<close> and \<^verbatim>\<open>split()\<close> without argument use, holds of
  the nine to thirteen control characters, of \<^verbatim>\<open>0x1c\<close> to \<^verbatim>\<open>0x1f\<close>, of the space, of
  \<^verbatim>\<open>0x85\<close> and of \<^verbatim>\<open>0xa0\<close>.
\<close>

definition is_space :: "char \<Rightarrow> bool" where
  "is_space c \<longleftrightarrow>
     c \<in> {CHR 0x09, CHR 0x0A, CHR 0x0B, CHR 0x0C, CHR 0x0D, CHR 0x1C, CHR 0x1D, CHR 0x1E,
          CHR 0x1F, CHR 0x20, CHR 0x85, CHR 0xA0}"

definition py_strip :: "string \<Rightarrow> string" where
  "py_strip s = rev (dropWhile is_space (rev (dropWhile is_space s)))"

text \<open>
  \<^verbatim>\<open>s.split()\<close>: the maximal runs of characters that are not whitespace, in order; the
  first argument is the run being read.
\<close>

fun py_split_from :: "string \<Rightarrow> string \<Rightarrow> string list" where
  "py_split_from w [] = (if w = [] then [] else [w])"
| "py_split_from w (c # cs) =
     (if is_space c then (if w = [] then py_split_from [] cs else w # py_split_from [] cs)
      else py_split_from (w @ [c]) cs)"

definition py_split :: "string \<Rightarrow> string list" where
  "py_split s = py_split_from [] s"

text \<open>
  \<^verbatim>\<open>int(s)\<close> in base ten: surrounding whitespace is dropped, one sign is allowed, and the
  rest is a nonempty run of decimal digits in which single underscores may stand between
  two digits; anything else raises \<^verbatim>\<open>ValueError\<close>. So does a string of more digits
  than the interpreter's limit on the conversion of a string to an integer, which is 4300
  by default; leading zeros count as digits, underscores do not.
\<close>

definition max_str_digits :: nat where
  "max_str_digits = 4300"

definition is_digit :: "char \<Rightarrow> bool" where
  "is_digit c \<longleftrightarrow> c \<in> set ''0123456789''"

definition digit_val :: "char \<Rightarrow> int" where
  "digit_val c = int (of_char c) - 48"

fun int_body :: "string \<Rightarrow> bool" where
  "int_body [] = False"
| "int_body [c] = is_digit c"
| "int_body (c # d # cs) =
     (is_digit c \<and> (if d = CHR ''_'' then int_body cs else int_body (d # cs)))"

definition digits_value :: "string \<Rightarrow> int" where
  "digits_value body = fold (\<lambda>c n. if c = CHR ''_'' then n else 10 * n + digit_val c) body 0"

definition py_int :: "string \<Rightarrow> py_error + int" where
  "py_int s =
     (let t = py_strip s;
          negative = (t \<noteq> [] \<and> hd t = CHR ''-'');
          body = (if t \<noteq> [] \<and> (hd t = CHR ''-'' \<or> hd t = CHR ''+'') then tl t else t)
      in if int_body body \<and> length (filter is_digit body) \<le> max_str_digits
         then Inr (if negative then - digits_value body else digits_value body)
         else Inl ValueError)"

text \<open>
  The loop \<^verbatim>\<open>for i in range(1, N + 1)\<close> over the values of \<^verbatim>\<open>i\<close> still to come, with
  the two lists it appends to. \<^verbatim>\<open>lines[i]\<close> raises \<^verbatim>\<open>IndexError\<close> past the end of the
  file, \<^verbatim>\<open>parts[0]\<close> raises it on a line without a token; the slice \<^verbatim>\<open>parts[2:]\<close> never
  raises, and \<^verbatim>\<open>parts[1]\<close>, the declared number of tags, is not read. Every orientation
  other than \<^verbatim>\<open>'H'\<close> takes the \<^verbatim>\<open>else\<close> branch.
\<close>

definition record_parts :: "string list \<Rightarrow> nat \<Rightarrow> string list" where
  "record_parts lines i = py_split (py_strip (lines ! i))"

fun read_loop ::
  "string list \<Rightarrow> nat list \<Rightarrow> slide list \<Rightarrow> (nat \<times> tags) list
   \<Rightarrow> py_error + (slide list \<times> (nat \<times> tags) list)" where
  "read_loop lines [] photos vertical_photos = Inr (photos, vertical_photos)"
| "read_loop lines (i # is) photos vertical_photos =
     (if i < length lines
      then (case record_parts lines i of
              [] \<Rightarrow> Inl IndexError
            | orientation # rest \<Rightarrow>
                if orientation = ''H''
                then read_loop lines is
                       (photos @ [([i - 1], set (drop 2 (orientation # rest)))]) vertical_photos
                else read_loop lines is photos
                       (vertical_photos @ [(i - 1, set (drop 2 (orientation # rest)))]))
      else Inl IndexError)"

text \<open>
  \<^verbatim>\<open>vertical_photos.sort(key=lambda x: len(x[1]), reverse=True)\<close>. The sort of a Python
  list is stable, and with \<^verbatim>\<open>reverse=True\<close> it stays so: the list is reversed, sorted in
  ascending order of the key, and reversed again.
\<close>

definition py_sort_reverse :: "('a \<Rightarrow> int) \<Rightarrow> 'a list \<Rightarrow> 'a list" where
  "py_sort_reverse key xs = rev (sort_key key (rev xs))"

text \<open>
  \<^verbatim>\<open>
  while len(vertical_photos) > 1:
      p1 = vertical_photos.pop()
      p2 = vertical_photos.pop()
      photos.append(([p1[0], p2[0]], p1[1] | p2[1]))
  \<close>
\<close>

function pair_loop :: "(nat \<times> tags) list \<Rightarrow> slide list \<Rightarrow> slide list" where
  "pair_loop vertical_photos photos =
     (if length vertical_photos > 1
      then (let p1 = last vertical_photos;
                rest1 = butlast vertical_photos;
                p2 = last rest1;
                rest2 = butlast rest1
            in pair_loop rest2 (photos @ [([fst p1, fst p2], snd p1 \<union> snd p2)]))
      else photos)"
  by pat_completeness auto
termination
  by (relation "measure (\<lambda>(vertical_photos, photos). length vertical_photos)") auto

declare pair_loop.simps [simp del]

text \<open>
  \<^verbatim>\<open>read_input\<close>, from the list \<^verbatim>\<open>lines\<close> that \<^verbatim>\<open>f.readlines()\<close> returned. \<^verbatim>\<open>lines[0]\<close>
  raises \<^verbatim>\<open>IndexError\<close> on an empty file; \<^verbatim>\<open>range(1, N + 1)\<close> is empty for \<^verbatim>\<open>N < 1\<close>.
\<close>

definition read_input :: "string list \<Rightarrow> py_error + slide list" where
  "read_input lines =
     (case lines of
        [] \<Rightarrow> Inl IndexError
      | first # _ \<Rightarrow>
          (case py_int (py_strip first) of
             Inl e \<Rightarrow> Inl e
           | Inr N \<Rightarrow>
               (case read_loop lines [1..<nat (N + 1)] [] [] of
                  Inl e \<Rightarrow> Inl e
                | Inr (photos, vertical_photos) \<Rightarrow>
                    Inr (pair_loop
                           (py_sort_reverse (\<lambda>x. len_set (snd x)) vertical_photos) photos))))"

text \<open>
  The vocabulary of the statements about the parser. A well-formed input is a first line
  holding a count \<open>N\<close>, followed by exactly \<open>N\<close> records
  \<^verbatim>\<open><orientation> <tagCount> <tag>*\<close> whose orientation is \<^verbatim>\<open>H\<close> or \<^verbatim>\<open>V\<close> and whose
  declared tag count is the number of tags listed. The horizontal slides and the vertical
  photos of an input are read off its records in input order, and \<open>pairs_of\<close> lists the
  composite slides made of the last two, then the two before them, and so on, of a list of
  vertical photos.
\<close>

definition record_tags :: "string list \<Rightarrow> nat \<Rightarrow> tags" where
  "record_tags lines i = set (drop 2 (record_parts lines i))"

definition is_horizontal :: "string list \<Rightarrow> nat \<Rightarrow> bool" where
  "is_horizontal lines i \<longleftrightarrow> take 1 (record_parts lines i) = [''H'']"

definition horizontal_slides :: "string list \<Rightarrow> nat \<Rightarrow> slide list" where
  "horizontal_slides lines n =
     map (\<lambda>i. ([i - 1], record_tags lines i)) (filter (is_horizontal lines) [1..<Suc n])"

definition vertical_photos_of :: "string list \<Rightarrow> nat \<Rightarrow> (nat \<times> tags) list" where
  "vertical_photos_of lines n =
     map (\<lambda>i. (i - 1, record_tags lines i))
       (filter (\<lambda>i. \<not> is_horizontal lines i) [1..<Suc n])"

definition well_formed_record :: "string \<Rightarrow> bool" where
  "well_formed_record line =
     (case py_split (py_strip line) of
        orientation # tag_count # tag_list \<Rightarrow>
          (orientation = ''H'' \<or> orientation = ''V'')
          \<and> py_int tag_count = Inr (int (length tag_list))
      | _ \<Rightarrow> False)"

definition well_formed :: "string list \<Rightarrow> bool" where
  "well_formed lines \<longleftrightarrow>
     lines \<noteq> []
     \<and> py_int (py_strip (hd lines)) = Inr (int (length lines) - 1)
     \<and> list_all well_formed_record (tl lines)"

definition paired_slide :: "nat \<times> tags \<Rightarrow> nat \<times> tags \<Rightarrow> slide" where
  "paired_slide p1 p2 = ([fst p1, fst p2], snd p1 \<union> snd p2)"

definition pairs_of :: "(nat \<times> tags) list \<Rightarrow> slide list" where
  "pairs_of vs =
     map (\<lambda>k. paired_slide (vs ! (length vs - 1 - 2 * k)) (vs ! (length vs - 2 - 2 * k)))
       [0..<length vs div 2]"

definition tag_count :: "nat \<times> tags \<Rightarrow> nat" where
  "tag_count p = card (snd p)"

text \<open>
  An input with one horizontal and three vertical photos, as \<^verbatim>\<open>readlines()\<close> returns it:
  every line ends with its newline character.
\<close>

definition example_lines :: "string list" where
  "example_lines =
     map (\<lambda>s. s @ [CHR 0x0A]) [''4'', ''V 1 d'', ''V 3 x y z'', ''H 1 a'', ''V 2 e f'']"

text \<open>
  Two lines whose tokens agree except, possibly, for the second one, the declared number
  of tags.
\<close>

definition same_but_count :: "string \<Rightarrow> string \<Rightarrow> bool" where
  "same_but_count l l' \<longleftrightarrow>
     take 1 (py_split (py_strip l)) = take 1 (py_split (py_strip l'))
     \<and> drop 2 (py_split (py_strip l)) = drop 2 (py_split (py_strip l'))"

section \<open>Tour extraction (\<^verbatim>\<open>extract_slideshow_from_gurobi\<close>)\<close>

text \<open>
  The argument \<^verbatim>\<open>x\<close> is the dictionary of solved variables made by
  \<^verbatim>\<open>model.addVars(S, S, ...)\<close>: it has a key for every pair \<^verbatim>\<open>(i, j)\<close> below \<^verbatim>\<open>S\<close>, so
  the lookups \<^verbatim>\<open>x[current, j]\<close> of the extractor cannot miss, and the solved value
  \<^verbatim>\<open>x[i, j].X\<close> is a finite float, read here as the real number it denotes. An edge
  counts as activated by the test of the source, \<^verbatim>\<open>x[current, j].X > 0.5\<close>.
\<close>

type_synonym solution_x = "nat \<Rightarrow> nat \<Rightarrow> real"

definition activated :: "solution_x \<Rightarrow> nat \<Rightarrow> nat \<Rightarrow> bool" where
  "activated x i j \<longleftrightarrow> x i j > 0.5"

text \<open>
  The inner loop, over the values of \<^verbatim>\<open>j\<close> still to be tried:
  \<^verbatim>\<open>
  for j in range(S):
      if current != j and x[current, j].X > 0.5:
          current = j
          break
  \<close>
  It has no \<^verbatim>\<open>else\<close> branch: when no \<^verbatim>\<open>j\<close> passes the test, \<^verbatim>\<open>current\<close> keeps its value.
\<close>

fun next_slide :: "solution_x \<Rightarrow> nat \<Rightarrow> nat list \<Rightarrow> nat" where
  "next_slide x current [] = current"
| "next_slide x current (j # js) =
     (if current \<noteq> j \<and> x current j > 0.5 then j else next_slide x current js)"

text \<open>
  The outer loop \<^verbatim>\<open>for _ in range(S)\<close>, with the number of iterations left as the
  recursion argument. \<^verbatim>\<open>photos[current]\<close> raises \<^verbatim>\<open>IndexError\<close> when \<^verbatim>\<open>current\<close> is
  not below \<^verbatim>\<open>len(photos)\<close>.
\<close>

fun extract_loop ::
  "solution_x \<Rightarrow> slide list \<Rightarrow> nat \<Rightarrow> nat \<Rightarrow> nat list list \<Rightarrow> nat \<Rightarrow> py_error + nat list list" where
  "extract_loop x photos S 0 slideshow_order current = Inr slideshow_order"
| "extract_loop x photos S (Suc n) slideshow_order current =
     (if current < length photos
      then extract_loop x photos S n (slideshow_order @ [sort (fst (photos ! current))])
             (next_slide x current [0..<S])
      else Inl IndexError)"

definition extract_slideshow_from_gurobi ::
  "solution_x \<Rightarrow> slide list \<Rightarrow> nat \<Rightarrow> py_error + nat list list" where
  "extract_slideshow_from_gurobi x photos S = extract_loop x photos S S [] 0"

text \<open>
  The successive values of \<^verbatim>\<open>current\<close> at the head of the outer loop's iterations: the
  slide indices the extractor visits, in order. The source only keeps the sorted photo
  indices of each visited slide; this sequence is what the statements about slide
  indices and edges are made of.
\<close>

fun visited :: "solution_x \<Rightarrow> nat \<Rightarrow> nat \<Rightarrow> nat \<Rightarrow> nat list" where
  "visited x S 0 current = []"
| "visited x S (Suc n) current = current # visited x S n (next_slide x current [0..<S])"

definition tour :: "solution_x \<Rightarrow> nat \<Rightarrow> nat list" where
  "tour x S = visited x S S 0"

definition slide_key :: "slide list \<Rightarrow> nat \<Rightarrow> nat list" where
  "slide_key photos v = sort (fst (photos ! v))"

text \<open>
  The degree constraints on a solved matrix: at every node the number of activated edges
  to another node, and from another node, is one. A Hamiltonian cycle \<open>p\<close> lists every
  slide index below \<open>S\<close> once, and the edge from each entry to the next, and from the
  last back to the first, is activated.
\<close>

definition out_degree :: "solution_x \<Rightarrow> nat \<Rightarrow> nat \<Rightarrow> nat" where
  "out_degree x S i = length (filter (\<lambda>j. j \<noteq> i \<and> activated x i j) [0..<S])"

definition in_degree :: "solution_x \<Rightarrow> nat \<Rightarrow> nat \<Rightarrow> nat" where
  "in_degree x S i = length (filter (\<lambda>j. j \<noteq> i \<and> activated x j i) [0..<S])"

definition out_degree_one :: "solution_x \<Rightarrow> nat \<Rightarrow> bool" where
  "out_degree_one x S \<longleftrightarrow> (\<forall>i<S. out_degree x S i = 1)"

definition in_degree_one :: "solution_x \<Rightarrow> nat \<Rightarrow> bool" where
  "in_degree_one x S \<longleftrightarrow> (\<forall>i<S. in_degree x S i = 1)"

definition hamiltonian_cycle :: "solution_x \<Rightarrow> nat \<Rightarrow> nat list \<Rightarrow> bool" where
  "hamiltonian_cycle x S p \<longleftrightarrow>
     length p = S \<and> distinct p \<and> set p = {..<S} \<and>
     (\<forall>k<S. activated x (p ! k) (p ! ((k + 1) mod S)))"

section \<open>Score audit (\<^verbatim>\<open>analyze_transitions\<close>) and the lookup table of \<^verbatim>\<open>main\<close>\<close>

text \<open>
  \<^verbatim>\<open>photos_dict = {tuple(sorted(photo[0])): photo[1] for photo in photos}\<close>: a dictionary
  comprehension stores the entries from left to right, a later slide with the same key
  replacing an earlier one.
\<close>

definition photos_dict :: "slide list \<Rightarrow> (nat list \<rightharpoonup> tags)" where
  "photos_dict photos = fold (\<lambda>photo d. d(sort (fst photo) \<mapsto> snd photo)) photos Map.empty"

text \<open>
  The loop \<^verbatim>\<open>for i in range(len(slideshow_order) - 1)\<close> over the indices still to be
  visited; each of the two subscripts \<^verbatim>\<open>photos_dict[...]\<close> raises \<^verbatim>\<open>KeyError\<close> on a key
  that is absent. For an empty order \<^verbatim>\<open>range(-1)\<close> is empty, as \<open>[0..<0 - 1]\<close> is.
\<close>

fun analyze_loop ::
  "nat list list \<Rightarrow> (nat list \<rightharpoonup> tags) \<Rightarrow> nat list \<Rightarrow> int \<Rightarrow> py_error + int" where
  "analyze_loop slideshow_order d [] total_score = Inr total_score"
| "analyze_loop slideshow_order d (i # is) total_score =
     (case d (slideshow_order ! i) of
        None \<Rightarrow> Inl KeyError
      | Some tags1 \<Rightarrow>
          (case d (slideshow_order ! (i + 1)) of
             None \<Rightarrow> Inl KeyError
           | Some tags2 \<Rightarrow>
               analyze_loop slideshow_order d is (total_score + compute_interest tags1 tags2)))"

definition analyze_transitions ::
  "nat list list \<Rightarrow> (nat list \<rightharpoonup> tags) \<Rightarrow> py_error + int" where
  "analyze_transitions slideshow_order d =
     analyze_loop slideshow_order d [0..<length slideshow_order - 1] 0"

section \<open>Tour model and solver call (\<^verbatim>\<open>create_optimized_slideshow\<close>)\<close>

text \<open>
  The solver is the external library \<^verbatim>\<open>gurobipy\<close>. What the source hands to it is kept as
  a value: the two parameters, the keys of the binary variables \<^verbatim>\<open>x\<close> and of the
  continuous variables \<^verbatim>\<open>u\<close>, the linear objective to maximise and the linear
  constraints, in the order of the calls. \<open>grb_status\<close> lists the status codes of the
  library; the source compares \<^verbatim>\<open>model.Status\<close> with \<^verbatim>\<open>GRB.OPTIMAL\<close> only.
\<close>

datatype grb_status =
  LOADED | OPTIMAL | INFEASIBLE | INF_OR_UNBD | UNBOUNDED | CUTOFF | ITERATION_LIMIT
  | NODE_LIMIT | TIME_LIMIT | SOLUTION_LIMIT | INTERRUPTED | NUMERIC | SUBOPTIMAL
  | INPROGRESS | USER_OBJ_LIMIT | WORK_LIMIT | MEM_LIMIT

datatype var = X nat nat | U nat

datatype relation = EQ | LE

datatype constr = Constr "(real \<times> var) list" relation real

record tour_model =
  TimeLimit :: real
  MIPGap :: real
  x_keys :: "(nat \<times> nat) list"
  u_keys :: "nat list"
  objective :: "(real \<times> var) list"
  constrs :: "constr list"

text \<open>
  \<^verbatim>\<open>
  for i in range(S):
      model.addConstr(gp.quicksum(x[i, j] for j in range(S) if i != j) == 1)
      model.addConstr(gp.quicksum(x[j, i] for j in range(S) if i != j) == 1)
  \<close>
\<close>

definition degree_constrs :: "nat \<Rightarrow> nat \<Rightarrow> constr list" where
  "degree_constrs S i =
     [Constr (map (\<lambda>j. (1, X i j)) (filter (\<lambda>j. i \<noteq> j) [0..<S])) EQ 1,
      Constr (map (\<lambda>j. (1, X j i)) (filter (\<lambda>j. i \<noteq> j) [0..<S])) EQ 1]"

text \<open>
  \<^verbatim>\<open>
  for i in range(1, S):
      for j in range(1, S):
          if i != j:
              model.addConstr(u[i] - u[j] + S * x[i, j] <= S - 1)
  \<close>
\<close>

definition subtour_constrs :: "nat \<Rightarrow> constr list" where
  "subtour_constrs S =
     concat (map (\<lambda>i. map (\<lambda>j. Constr [(1, U i), (- 1, U j), (real S, X i j)] LE (real S - 1))
                         (filter (\<lambda>j. i \<noteq> j) [1..<S]))
               [1..<S])"

text \<open>
  The model of lines 39 to 63 of the source: it is built for every list of slides, with no
  test on \<^verbatim>\<open>S\<close>.
\<close>

definition build_model :: "slide list \<Rightarrow> tour_model" where
  "build_model photos =
     (let S = length photos in
      \<lparr> TimeLimit = 600,
        MIPGap = 1 / 10 ^ 9,
        x_keys = List.product [0..<S] [0..<S],
        u_keys = [0..<S],
        objective =
          concat (map (\<lambda>i. map (\<lambda>j. (real_of_int (compute_interest (snd (photos ! i))
                                                       (snd (photos ! j))), X i j))
                              (filter (\<lambda>j. i \<noteq> j) [0..<S]))
                    [0..<S]),
        constrs = concat (map (degree_constrs S) [0..<S]) @ subtour_constrs S \<rparr>)"

text \<open>
  What \<^verbatim>\<open>model.optimize()\<close> leaves behind: the status, the values \<^verbatim>\<open>.X\<close> of the variables
  and \<^verbatim>\<open>model.ObjVal\<close>. An assignment is feasible for a model when its binary variables
  are 0 or 1, its continuous variables are not negative (the default lower bound of
  \<^verbatim>\<open>addVars\<close>) and every constraint holds.
\<close>

record solver_result =
  Status :: grb_status
  X_val :: "nat \<Rightarrow> nat \<Rightarrow> real"
  U_val :: "nat \<Rightarrow> real"
  ObjVal :: real

definition var_value :: "solver_result \<Rightarrow> var \<Rightarrow> real" where
  "var_value sol v = (case v of X i j \<Rightarrow> X_val sol i j | U i \<Rightarrow> U_val sol i)"

definition lin_value :: "solver_result \<Rightarrow> (real \<times> var) list \<Rightarrow> real" where
  "lin_value sol ts = sum_list (map (\<lambda>(c, v). c * var_value sol v) ts)"

fun holds :: "solver_result \<Rightarrow> constr \<Rightarrow> bool" where
  "holds sol (Constr ts EQ b) \<longleftrightarrow> lin_value sol ts = b"
| "holds sol (Constr ts LE b) \<longleftrightarrow> lin_value sol ts \<le> b"

definition feasible :: "tour_model \<Rightarrow> solver_result \<Rightarrow> bool" where
  "feasible m sol \<longleftrightarrow>
     list_all (\<lambda>(i, j). X_val sol i j = 0 \<or> X_val sol i j = 1) (x_keys m)
     \<and> list_all (\<lambda>i. 0 \<le> U_val sol i) (u_keys m)
     \<and> list_all (holds sol) (constrs m)"

text \<open>
  The lines written to the standard output, without their wording.
\<close>

datatype message =
  Usage | OptimalScore real | NoOptimal | FinalScore int | Saved | NoSolution

text \<open>
  \<^verbatim>\<open>create_optimized_slideshow\<close>, with the solver call as the parameter \<open>optimize\<close>:
  \<^verbatim>\<open>
  if model.Status == GRB.OPTIMAL:
      print(...)
      slideshow = extract_slideshow_from_gurobi(x, photos, S)
      return slideshow, model.ObjVal
  else:
      print(...)
      return [], 0
  \<close>
\<close>

definition create_optimized_slideshow ::
  "(tour_model \<Rightarrow> solver_result) \<Rightarrow> slide list
   \<Rightarrow> py_error + (message list \<times> nat list list \<times> real)" where
  "create_optimized_slideshow optimize photos =
     (let S = length photos;
          sol = optimize (build_model photos)
      in if Status sol = OPTIMAL
         then (case extract_slideshow_from_gurobi (X_val sol) photos S of
                 Inl e \<Rightarrow> Inl e
               | Inr slideshow \<Rightarrow> Inr ([OptimalScore (ObjVal sol)], slideshow, ObjVal sol))
         else Inr ([NoOptimal], [], 0))"

section \<open>Output and entry point (\<^verbatim>\<open>write_output\<close>, \<^verbatim>\<open>main\<close>)\<close>

text \<open>
  \<^verbatim>\<open>str\<close> of a photo index, in decimal, and \<^verbatim>\<open>" ".join\<close>; \<^verbatim>\<open>write_output\<close> gives the
  text of the file it writes.
\<close>

function str_nat :: "nat \<Rightarrow> string" where
  "str_nat n =
     (if n < 10 then [char_of (48 + n)] else str_nat (n div 10) @ [char_of (48 + n mod 10)])"
  by pat_completeness auto
termination
  by (relation "measure id") auto

declare str_nat.simps [simp del]

fun py_join :: "string \<Rightarrow> string list \<Rightarrow> string" where
  "py_join sep [] = []"
| "py_join sep [s] = s"
| "py_join sep (s # t # ts) = s @ sep @ py_join sep (t # ts)"

definition write_output :: "nat list list \<Rightarrow> string" where
  "write_output slideshow_order =
     str_nat (length slideshow_order) @ [CHR 0x0A]
     @ concat (map (\<lambda>slide. py_join '' '' (map str_nat slide) @ [CHR 0x0A]) slideshow_order)"

text \<open>
  \<^verbatim>\<open>main\<close>, from the argument vector, the file system (the lines of the file at a path,
  if it can be opened) and the solver. A run ends with an exception or with the messages
  printed and the text written to \<^verbatim>\<open>slideshow.sol\<close>, if any. An empty order is false in
  \<^verbatim>\<open>if slideshow_order:\<close>.
\<close>

record run =
  printed :: "message list"
  written :: "string option"

definition main ::
  "string list \<Rightarrow> (string \<Rightarrow> string list option) \<Rightarrow> (tour_model \<Rightarrow> solver_result)
   \<Rightarrow> py_error + run" where
  "main argv fs optimize =
     (if length argv \<noteq> 2 then Inr \<lparr> printed = [Usage], written = None \<rparr>
      else
        (case fs (argv ! 1) of
           None \<Rightarrow> Inl OSError
         | Some lines \<Rightarrow>
             (case read_input lines of
                Inl e \<Rightarrow> Inl e
              | Inr photos \<Rightarrow>
                  (case create_optimized_slideshow optimize photos of
                     Inl e \<Rightarrow> Inl e
                   | Inr (msgs, slideshow_order, optimal_score) \<Rightarrow>
                       if slideshow_order \<noteq> []
                       then (case analyze_transitions slideshow_order (photos_dict photos) of
                               Inl e \<Rightarrow> Inl e
                             | Inr final_score \<Rightarrow>
                                 Inr \<lparr> printed = msgs @ [FinalScore final_score, Saved],
                                       written = Some (write_output slideshow_order) \<rparr>)
                       else Inr \<lparr> printed = msgs @ [NoSolution], written = None \<rparr>))))"

text \<open>
  A solver reports \<open>OPTIMAL\<close> soundly for a model when the assignment it then returns is
  feasible for it.
\<close>

definition sound_for :: "(tour_model \<Rightarrow> solver_result) \<Rightarrow> tour_model \<Rightarrow> bool" where
  "sound_for optimize m \<longleftrightarrow> (Status (optimize m) = OPTIMAL \<longrightarrow> feasible m (optimize m))"

text \<open>
  Example runs: a file system holding the example input (two slides after pairing) and an
  input of one horizontal photo; a solver result that stops at the time limit with the
  tour through both slides; and the result of a model found infeasible.
\<close>

definition single_lines :: "string list" where
  "single_lines = map (\<lambda>s. s @ [CHR 0x0A]) [''1'', ''H 1 a'']"

definition example_fs :: "string \<Rightarrow> string list option" where
  "example_fs path =
     (if path = ''in.txt'' then Some example_lines
      else if path = ''one.txt'' then Some single_lines
      else None)"

definition time_limit_result :: solver_result where
  "time_limit_result =
     \<lparr> Status = TIME_LIMIT, X_val = (\<lambda>i j. if i \<noteq> j then 1 else 0), U_val = (\<lambda>i. 0),
       ObjVal = 0 \<rparr>"

definition infeasible_result :: solver_result where
  "infeasible_result =
     \<lparr> Status = INFEASIBLE, X_val = (\<lambda>i j. 0), U_val = (\<lambda>i. 0), ObjVal = 0 \<rparr>"

definition optimal_result :: solver_result where
  "optimal_result = time_limit_result \<lparr> Status := OPTIMAL \<rparr>"

section \<open>Properties of the interest score\<close>

text \<open>
  Claim C1. For all tag sets \<open>A\<close> and \<open>B\<close> the interest score is the minimum of the three
  quantities: size of the intersection, size of \<open>A\<close> minus \<open>B\<close>, size of \<open>B\<close> minus \<open>A\<close>; in
  particular it is 0 whenever either of the two sets is empty.
\<close>

theorem compute_interest_min3:
  "compute_interest A B = Min {int (card (A \<inter> B)), int (card (A - B)), int (card (B - A))}
   \<and> (A = {} \<or> B = {} \<longrightarrow> compute_interest A B = 0)"
proof
  show "compute_interest A B = Min {int (card (A \<inter> B)), int (card (A - B)), int (card (B - A))}"
    by (simp add: compute_interest_def len_set_def)
  show "A = {} \<or> B = {} \<longrightarrow> compute_interest A B = 0"
    by (auto simp: compute_interest_def len_set_def)
qed

theorem compute_interest_min3_witness:
  "compute_interest {} {''cat'', ''sun''} = 0
   \<and> compute_interest {''a'', ''b'', ''c''} {''b'', ''c'', ''d'', ''e''} = 1"
proof
  show "compute_interest {} {''cat'', ''sun''} = 0"
    using compute_interest_min3 [of "{}" "{''cat'', ''sun''}"] by simp
  show "compute_interest {''a'', ''b'', ''c''} {''b'', ''c'', ''d'', ''e''} = 1"
    by (simp add: compute_interest_def len_set_def)
qed

text \<open>
  Claim C9. The interest score is symmetric in its two arguments.
\<close>

theorem compute_interest_symmetric:
  "compute_interest A B = compute_interest B A"
  by (simp add: compute_interest_def Int_commute min.commute)

section \<open>Properties of the parser and of the vertical pairing\<close>

lemma read_loop_ok:
  assumes "\<forall>i\<in>set is. i < length lines \<and> record_parts lines i \<noteq> []"
  shows "read_loop lines is photos vps =
     Inr (photos @ map (\<lambda>i. ([i - 1], record_tags lines i)) (filter (is_horizontal lines) is),
          vps @ map (\<lambda>i. (i - 1, record_tags lines i)) (filter (\<lambda>i. \<not> is_horizontal lines i) is))"
  using assms
proof (induction "is" arbitrary: photos vps)
  case Nil
  then show ?case by simp
next
  case (Cons i "is")
  from Cons.prems have i: "i < length lines" and ne: "record_parts lines i \<noteq> []"
    and rest: "\<forall>i\<in>set is. i < length lines \<and> record_parts lines i \<noteq> []"
    by simp_all
  from ne obtain orientation rest' where p: "record_parts lines i = orientation # rest'"
    by (cases "record_parts lines i") auto
  show ?case
  proof (cases "orientation = ''H''")
    case True
    with p have h: "is_horizontal lines i" by (simp add: is_horizontal_def)
    from True p i h show ?thesis
      by (simp add: Cons.IH [OF rest] record_tags_def)
  next
    case False
    with p have h: "\<not> is_horizontal lines i" by (simp add: is_horizontal_def)
    from False p i h show ?thesis
      by (simp add: Cons.IH [OF rest] record_tags_def)
  qed
qed

lemma read_loop_error:
  "read_loop lines is photos vps = Inl e \<Longrightarrow> e = IndexError"
proof (induction "is" arbitrary: photos vps)
  case Nil
  then show ?case by simp
next
  case (Cons i "is")
  then show ?case
    by (auto split: if_splits list.splits)
qed

lemma read_loop_past_end:
  assumes "\<exists>i\<in>set is. length lines \<le> i"
  shows "read_loop lines is photos vps = Inl IndexError"
  using assms
proof (induction "is" arbitrary: photos vps)
  case Nil
  then show ?case by simp
next
  case (Cons i "is")
  show ?case
  proof (cases "i < length lines")
    case False
    then show ?thesis by simp
  next
    case True
    with Cons.prems have "\<exists>i\<in>set is. length lines \<le> i" by auto
    from Cons.IH [OF this] True show ?thesis
      by (simp split: list.splits)
  qed
qed

lemma pairs_of_snoc2:
  "pairs_of (vs @ [p2, p1]) = paired_slide p1 p2 # pairs_of vs"
proof -
  let ?ws = "vs @ [p2, p1]"
  let ?n = "length vs"
  have len: "length ?ws = ?n + 2" by simp
  have d: "(?n + 2) div 2 = Suc (?n div 2)" by simp
  have "pairs_of ?ws =
      map (\<lambda>k. paired_slide (?ws ! (?n + 2 - 1 - 2 * k)) (?ws ! (?n + 2 - 2 - 2 * k)))
        [0..<Suc (?n div 2)]"
    by (simp only: pairs_of_def len d)
  also have "[0..<Suc (?n div 2)] = 0 # map Suc [0..<?n div 2]"
    by (simp add: upt_conv_Cons map_Suc_upt del: upt_Suc)
  also have "map (\<lambda>k. paired_slide (?ws ! (?n + 2 - 1 - 2 * k)) (?ws ! (?n + 2 - 2 - 2 * k)))
        (0 # map Suc [0..<?n div 2])
     = paired_slide (?ws ! (?n + 1)) (?ws ! ?n)
       # map (\<lambda>k. paired_slide (?ws ! (?n - 1 - 2 * k)) (?ws ! (?n - 2 - 2 * k))) [0..<?n div 2]"
    by (simp add: comp_def)
  also have "?ws ! (?n + 1) = p1" by (simp add: nth_append)
  also have "?ws ! ?n = p2" by (simp add: nth_append)
  also have "map (\<lambda>k. paired_slide (?ws ! (?n - 1 - 2 * k)) (?ws ! (?n - 2 - 2 * k))) [0..<?n div 2]
     = map (\<lambda>k. paired_slide (vs ! (?n - 1 - 2 * k)) (vs ! (?n - 2 - 2 * k))) [0..<?n div 2]"
  proof (rule map_cong [OF refl])
    fix k assume "k \<in> set [0..<?n div 2]"
    then have "2 * k + 2 \<le> ?n" by auto
    then have "?n - 1 - 2 * k < ?n" "?n - 2 - 2 * k < ?n" by auto
    then show "paired_slide (?ws ! (?n - 1 - 2 * k)) (?ws ! (?n - 2 - 2 * k))
        = paired_slide (vs ! (?n - 1 - 2 * k)) (vs ! (?n - 2 - 2 * k))"
      by (simp add: nth_append)
  qed
  finally show ?thesis by (simp add: pairs_of_def)
qed

lemma pairs_of_short: "length vs \<le> 1 \<Longrightarrow> pairs_of vs = []"
  by (cases vs) (auto simp: pairs_of_def)

lemma pair_loop_pairs_of: "pair_loop vs photos = photos @ pairs_of vs"
proof (induction vs photos rule: pair_loop.induct)
  case (1 vs photos)
  show ?case
  proof (cases "length vs > 1")
    case False
    then show ?thesis by (subst pair_loop.simps) (simp add: pairs_of_short)
  next
    case True
    then have ne: "vs \<noteq> []" and ne2: "butlast vs \<noteq> []"
      by (auto simp: length_greater_0_conv [symmetric] simp del: length_greater_0_conv)
    have vs: "vs = butlast (butlast vs) @ [last (butlast vs), last vs]"
      using ne ne2 by (metis append_butlast_last_id append.assoc append_Cons append_Nil)
    have "pair_loop vs photos
        = pair_loop (butlast (butlast vs))
            (photos @ [([fst (last vs), fst (last (butlast vs))],
                        snd (last vs) \<union> snd (last (butlast vs)))])"
      using True by (subst pair_loop.simps) (simp add: Let_def)
    also have "\<dots> = (photos @ [([fst (last vs), fst (last (butlast vs))],
                        snd (last vs) \<union> snd (last (butlast vs)))])
                   @ pairs_of (butlast (butlast vs))"
      using "1.IH" [OF True refl refl refl refl] .
    also have "\<dots> = photos @ pairs_of (butlast (butlast vs) @ [last (butlast vs), last vs])"
      by (simp add: pairs_of_snoc2 paired_slide_def)
    finally show ?thesis using vs by simp
  qed
qed


lemma mset_py_sort_reverse: "mset (py_sort_reverse key xs) = mset xs"
  by (simp add: py_sort_reverse_def)

lemma py_sort_reverse_descending:
  "sorted_wrt (\<lambda>a b. key a \<ge> key b) (py_sort_reverse key xs)"
proof -
  have "sorted (map key (sort_key key (rev xs)))" by (rule sorted_sort_key)
  then have "sorted_wrt (\<lambda>a b. key a \<le> key b) (sort_key key (rev xs))"
    by (simp add: sorted_map)
  then show ?thesis
    by (simp add: py_sort_reverse_def sorted_wrt_rev)
qed

lemma py_sort_reverse_stable:
  "filter (\<lambda>p. key p = c) (py_sort_reverse key xs) = filter (\<lambda>p. key p = c) xs"
proof -
  have "filter (\<lambda>p. key p = c) (py_sort_reverse key xs)
      = rev (filter (\<lambda>p. key p = c) (sort_key key (rev xs)))"
    by (simp add: py_sort_reverse_def rev_filter)
  also have "filter (\<lambda>p. key p = c) (sort_key key (rev xs)) = filter (\<lambda>p. key p = c) (rev xs)"
    by (rule sort_key_stable)
  finally show ?thesis by (simp add: rev_filter)
qed

lemma length_pairs_of: "length (pairs_of vs) = length vs div 2"
  by (simp add: pairs_of_def)

lemma two_from_end:
  assumes "1 < length vs"
  obtains ws p2 p1 where "vs = ws @ [p2, p1]"
proof -
  from assms have ne: "vs \<noteq> []" and ne2: "butlast vs \<noteq> []"
    by (auto simp: length_greater_0_conv [symmetric] simp del: length_greater_0_conv)
  have "vs = butlast (butlast vs) @ [last (butlast vs), last vs]"
    using ne ne2 by (metis append_butlast_last_id append.assoc append_Cons append_Nil)
  then show ?thesis by (rule that)
qed

lemma pairs_of_indices:
  "mset (concat (map fst (pairs_of vs))) = mset (map fst (drop (length vs mod 2) vs))"
proof (induction "length vs" arbitrary: vs rule: less_induct)
  case less
  show ?case
  proof (cases "1 < length vs")
    case False
    then have short: "length vs \<le> 1" by simp
    show ?thesis
    proof (cases vs)
      case Nil
      then show ?thesis by (simp add: pairs_of_short)
    next
      case (Cons a as)
      with short have "vs = [a]" by simp
      then show ?thesis by (simp add: pairs_of_short)
    qed
  next
    case True
    then obtain ws p2 p1 where vs: "vs = ws @ [p2, p1]" by (rule two_from_end)
    then have "length ws < length vs" by simp
    from less [OF this]
    have IH: "mset (concat (map fst (pairs_of ws))) = mset (map fst (drop (length ws mod 2) ws))" .
    have m: "length vs mod 2 = length ws mod 2" using vs by simp
    have le: "length ws mod 2 \<le> length ws" by (cases "length ws") auto
    have "drop (length vs mod 2) vs = drop (length ws mod 2) ws @ [p2, p1]"
      using le by (simp add: m vs)
    with IH show ?thesis
      by (simp add: vs pairs_of_snoc2 paired_slide_def)
  qed
qed

lemma well_formed_record_parts:
  "well_formed_record line \<Longrightarrow> py_split (py_strip line) \<noteq> []"
  by (auto simp: well_formed_record_def split: list.splits)

lemma well_formed_records:
  assumes "well_formed lines"
  shows "\<forall>i\<in>set [1..<length lines]. i < length lines \<and> record_parts lines i \<noteq> []"
proof
  fix i assume "i \<in> set [1..<length lines]"
  then have i: "1 \<le> i" "i < length lines" by auto
  from assms have ne: "lines \<noteq> []" and all: "list_all well_formed_record (tl lines)"
    by (simp_all add: well_formed_def)
  from i have "i - 1 < length (tl lines)" by simp
  with all have "well_formed_record (tl lines ! (i - 1))"
    by (simp add: list_all_length)
  moreover have "tl lines ! (i - 1) = lines ! i"
    using i ne by (simp add: nth_tl)
  ultimately have "well_formed_record (lines ! i)" by simp
  from well_formed_record_parts [OF this] i show "i < length lines \<and> record_parts lines i \<noteq> []"
    by (simp add: record_parts_def)
qed

lemma read_input_nonempty:
  "lines \<noteq> [] \<Longrightarrow>
   read_input lines =
     (case py_int (py_strip (hd lines)) of
        Inl e \<Rightarrow> Inl e
      | Inr N \<Rightarrow>
          (case read_loop lines [1..<nat (N + 1)] [] [] of
             Inl e \<Rightarrow> Inl e
           | Inr (photos, vertical_photos) \<Rightarrow>
               Inr (pair_loop (py_sort_reverse (\<lambda>x. len_set (snd x)) vertical_photos) photos)))"
proof (cases lines)
  case Nil
  assume "lines \<noteq> []"
  with Nil show ?thesis by simp
next
  case (Cons first rest)
  show ?thesis unfolding Cons by (simp add: read_input_def)
qed

lemma read_input_well_formed:
  assumes "well_formed lines"
  shows "read_input lines =
     Inr (horizontal_slides lines (length lines - 1)
          @ pairs_of (py_sort_reverse (\<lambda>x. len_set (snd x))
                        (vertical_photos_of lines (length lines - 1))))"
proof -
  from assms have ne: "lines \<noteq> []"
    and N: "py_int (py_strip (hd lines)) = Inr (int (length lines) - 1)"
    by (simp_all add: well_formed_def)
  have r: "[1..<nat (int (length lines) - 1 + 1)] = [1..<length lines]" by simp
  have S: "Suc (length lines - 1) = length lines" using ne by simp
  from read_loop_ok [OF well_formed_records [OF assms], of "[]" "[]"]
  have rl: "read_loop lines [1..<length lines] [] [] =
     Inr (horizontal_slides lines (length lines - 1), vertical_photos_of lines (length lines - 1))"
    by (simp only: horizontal_slides_def vertical_photos_of_def S append_Nil)
  show ?thesis
    by (simp only: read_input_nonempty [OF ne] N r rl sum.case prod.case pair_loop_pairs_of)
qed


lemma descending_nth:
  assumes "sorted_wrt (\<lambda>a b. f a \<ge> f b) xs" "i \<le> j" "j < length xs"
  shows "(f (xs ! j) :: nat) \<le> f (xs ! i)"
proof (cases "i = j")
  case True
  then show ?thesis by simp
next
  case False
  with assms(2) have "i < j" by simp
  from sorted_wrt_nth_less [OF assms(1) this assms(3)] show ?thesis .
qed

lemma tag_count_descending:
  "sorted_wrt (\<lambda>a b. tag_count a \<ge> tag_count b) (py_sort_reverse (\<lambda>x. len_set (snd x)) vs)"
proof -
  have "sorted_wrt (\<lambda>a b. len_set (snd a) \<ge> len_set (snd b))
          (py_sort_reverse (\<lambda>x. len_set (snd x)) vs)"
    by (rule py_sort_reverse_descending)
  then show ?thesis by (simp add: len_set_def tag_count_def)
qed

lemma tag_count_stable:
  "filter (\<lambda>p. tag_count p = c) (py_sort_reverse (\<lambda>x. len_set (snd x)) vs)
   = filter (\<lambda>p. tag_count p = c) vs"
proof -
  have "filter (\<lambda>p. len_set (snd p) = int c) (py_sort_reverse (\<lambda>x. len_set (snd x)) vs)
   = filter (\<lambda>p. len_set (snd p) = int c) vs"
    by (rule py_sort_reverse_stable)
  then show ?thesis by (simp add: len_set_def tag_count_def)
qed

lemma pairs_of_nth:
  "k < length vs div 2 \<Longrightarrow>
   pairs_of vs ! k =
     ([fst (vs ! (length vs - 1 - 2 * k)), fst (vs ! (length vs - 2 - 2 * k))],
      snd (vs ! (length vs - 1 - 2 * k)) \<union> snd (vs ! (length vs - 2 - 2 * k)))"
  by (simp add: pairs_of_def paired_slide_def)

text \<open>
  Claim C2. For every well-formed input the parser returns the horizontal slides, in input
  order, followed by the composite slides. The composite slides are made from the vertical
  photos sorted in descending order of tag-set size (a rearrangement of the vertical
  photos of the input that keeps the input order among photos of equal size): the
  \<open>k\<close>-th composite slide takes the last two photos of what the earlier ones have left,
  whose tag counts are the smallest remaining, and its tags are the union of theirs. There
  are as many composite slides as half the number \<open>V\<close> of vertical photos, rounded down,
  and their photo indices are those of all the sorted vertical photos but, when \<open>V\<close> is
  odd, the first one.
\<close>

theorem read_input_vertical_pairing:
  assumes wf: "well_formed lines"
  shows "\<exists>svs.
      mset svs = mset (vertical_photos_of lines (length lines - 1))
    \<and> sorted_wrt (\<lambda>a b. tag_count a \<ge> tag_count b) svs
    \<and> (\<forall>c. filter (\<lambda>p. tag_count p = c) svs
            = filter (\<lambda>p. tag_count p = c) (vertical_photos_of lines (length lines - 1)))
    \<and> read_input lines = Inr (horizontal_slides lines (length lines - 1) @ pairs_of svs)
    \<and> length (pairs_of svs) = length (vertical_photos_of lines (length lines - 1)) div 2
    \<and> (\<forall>k<length svs div 2.
          pairs_of svs ! k =
            ([fst (svs ! (length svs - 1 - 2 * k)), fst (svs ! (length svs - 2 - 2 * k))],
             snd (svs ! (length svs - 1 - 2 * k)) \<union> snd (svs ! (length svs - 2 - 2 * k)))
          \<and> (\<forall>j<length svs - 2 * k.
                tag_count (svs ! (length svs - 1 - 2 * k)) \<le> tag_count (svs ! j))
          \<and> (\<forall>j<length svs - 2 * k - 1.
                tag_count (svs ! (length svs - 2 - 2 * k)) \<le> tag_count (svs ! j)))
    \<and> mset (concat (map fst (pairs_of svs))) = mset (map fst (drop (length svs mod 2) svs))"
proof -
  let ?vs = "vertical_photos_of lines (length lines - 1)"
  let ?svs = "py_sort_reverse (\<lambda>x. len_set (snd x)) ?vs"
  have 1: "mset ?svs = mset ?vs" by (rule mset_py_sort_reverse)
  have 2: "sorted_wrt (\<lambda>a b. tag_count a \<ge> tag_count b) ?svs" by (rule tag_count_descending)
  have 3: "\<forall>c. filter (\<lambda>p. tag_count p = c) ?svs = filter (\<lambda>p. tag_count p = c) ?vs"
    by (intro allI tag_count_stable)
  have 4: "read_input lines = Inr (horizontal_slides lines (length lines - 1) @ pairs_of ?svs)"
    by (rule read_input_well_formed [OF wf])
  have "length ?svs = length ?vs" using 1 by (rule mset_eq_length)
  then have 5: "length (pairs_of ?svs) = length ?vs div 2" by (simp add: length_pairs_of)
  have 6: "\<forall>k<length ?svs div 2.
          pairs_of ?svs ! k =
            ([fst (?svs ! (length ?svs - 1 - 2 * k)), fst (?svs ! (length ?svs - 2 - 2 * k))],
             snd (?svs ! (length ?svs - 1 - 2 * k)) \<union> snd (?svs ! (length ?svs - 2 - 2 * k)))
          \<and> (\<forall>j<length ?svs - 2 * k.
                tag_count (?svs ! (length ?svs - 1 - 2 * k)) \<le> tag_count (?svs ! j))
          \<and> (\<forall>j<length ?svs - 2 * k - 1.
                tag_count (?svs ! (length ?svs - 2 - 2 * k)) \<le> tag_count (?svs ! j))"
  proof (intro allI impI conjI)
    fix k assume k: "k < length ?svs div 2"
    show "pairs_of ?svs ! k =
            ([fst (?svs ! (length ?svs - 1 - 2 * k)), fst (?svs ! (length ?svs - 2 - 2 * k))],
             snd (?svs ! (length ?svs - 1 - 2 * k)) \<union> snd (?svs ! (length ?svs - 2 - 2 * k)))"
      by (rule pairs_of_nth [OF k])
    from k have k2: "2 * k + 2 \<le> length ?svs" by auto
    {
      fix j assume "j < length ?svs - 2 * k"
      with k2 have "j \<le> length ?svs - 1 - 2 * k" "length ?svs - 1 - 2 * k < length ?svs"
        by auto
      then show "tag_count (?svs ! (length ?svs - 1 - 2 * k)) \<le> tag_count (?svs ! j)"
        by (rule descending_nth [OF 2])
    }
    {
      fix j assume "j < length ?svs - 2 * k - 1"
      with k2 have "j \<le> length ?svs - 2 - 2 * k" "length ?svs - 2 - 2 * k < length ?svs"
        by auto
      then show "tag_count (?svs ! (length ?svs - 2 - 2 * k)) \<le> tag_count (?svs ! j)"
        by (rule descending_nth [OF 2])
    }
  qed
  have 7: "mset (concat (map fst (pairs_of ?svs))) = mset (map fst (drop (length ?svs mod 2) ?svs))"
    by (rule pairs_of_indices)
  show ?thesis
    by (rule exI [of _ ?svs]) (intro conjI 1 2 3 4 5 6 7)
qed

lemma example_well_formed: "well_formed example_lines"
  by code_simp

lemma example_read_input:
  "read_input example_lines = Inr [([2], {''a''}), ([0, 3], {''d'', ''e'', ''f''})]"
  by code_simp

lemma example_verticals: "length (vertical_photos_of example_lines (length example_lines - 1)) = 3"
  by code_simp


theorem read_input_vertical_pairing_witness:
  "well_formed example_lines
   \<and> read_input example_lines = Inr [([2], {''a''}), ([0, 3], {''d'', ''e'', ''f''})]
   \<and> (\<exists>svs. sorted_wrt (\<lambda>a b. tag_count a \<ge> tag_count b) svs
         \<and> read_input example_lines
             = Inr (horizontal_slides example_lines (length example_lines - 1) @ pairs_of svs)
         \<and> length (pairs_of svs) = 1)"
proof -
  let ?n = "length example_lines - 1"
  from read_input_vertical_pairing [OF example_well_formed] obtain svs where
    A: "mset svs = mset (vertical_photos_of example_lines ?n)
    \<and> sorted_wrt (\<lambda>a b. tag_count a \<ge> tag_count b) svs
    \<and> (\<forall>c. filter (\<lambda>p. tag_count p = c) svs
            = filter (\<lambda>p. tag_count p = c) (vertical_photos_of example_lines ?n))
    \<and> read_input example_lines = Inr (horizontal_slides example_lines ?n @ pairs_of svs)
    \<and> length (pairs_of svs) = length (vertical_photos_of example_lines ?n) div 2
    \<and> (\<forall>k<length svs div 2.
          pairs_of svs ! k =
            ([fst (svs ! (length svs - 1 - 2 * k)), fst (svs ! (length svs - 2 - 2 * k))],
             snd (svs ! (length svs - 1 - 2 * k)) \<union> snd (svs ! (length svs - 2 - 2 * k)))
          \<and> (\<forall>j<length svs - 2 * k.
                tag_count (svs ! (length svs - 1 - 2 * k)) \<le> tag_count (svs ! j))
          \<and> (\<forall>j<length svs - 2 * k - 1.
                tag_count (svs ! (length svs - 2 - 2 * k)) \<le> tag_count (svs ! j)))
    \<and> mset (concat (map fst (pairs_of svs))) = mset (map fst (drop (length svs mod 2) svs))" ..
  note s = A [THEN conjunct2, THEN conjunct1]
    and r = A [THEN conjunct2, THEN conjunct2, THEN conjunct2, THEN conjunct1]
    and l = A [THEN conjunct2, THEN conjunct2, THEN conjunct2, THEN conjunct2, THEN conjunct1]
  have "length (pairs_of svs) = 3 div 2" using l unfolding example_verticals .
  then have l1: "length (pairs_of svs) = 1" by simp
  show ?thesis
    by (intro conjI exI [of _ svs]) (rule example_well_formed example_read_input s r l1)+
qed

lemma read_loop_append:
  assumes "\<forall>i\<in>set is. i < length lines"
  shows "read_loop (lines @ extra) is photos vps = read_loop lines is photos vps"
  using assms
proof (induction "is" arbitrary: photos vps)
  case Nil
  then show ?case by simp
next
  case (Cons i "is")
  then have i: "i < length lines" and rest: "\<forall>i\<in>set is. i < length lines" by simp_all
  from i have p: "record_parts (lines @ extra) i = record_parts lines i"
    by (simp add: record_parts_def nth_append)
  from i show ?case
    by (simp add: p Cons.IH [OF rest] split: list.splits)
qed

lemma read_loop_same_but_count:
  assumes "length lines' = length lines"
    and "\<forall>i\<in>set is. i < length lines \<longrightarrow> same_but_count (lines ! i) (lines' ! i)"
  shows "read_loop lines' is photos vps = read_loop lines is photos vps"
  using assms(2)
proof (induction "is" arbitrary: photos vps)
  case Nil
  then show ?case by simp
next
  case (Cons i "is")
  then have rest: "\<forall>i\<in>set is. i < length lines \<longrightarrow> same_but_count (lines ! i) (lines' ! i)"
    by simp
  note IH = Cons.IH [OF rest]
  show ?case
  proof (cases "i < length lines")
    case False
    with assms(1) show ?thesis by simp
  next
    case True
    with Cons.prems have "same_but_count (lines ! i) (lines' ! i)" by simp
    then have t: "take 1 (record_parts lines i) = take 1 (record_parts lines' i)"
      and d: "drop 2 (record_parts lines i) = drop 2 (record_parts lines' i)"
      by (simp_all add: same_but_count_def record_parts_def)
    show ?thesis
    proof (cases "record_parts lines i")
      case Nil
      with t have "record_parts lines' i = []" by simp
      with Nil True assms(1) show ?thesis by simp
    next
      case (Cons orientation rest)
      with t obtain rest' where c': "record_parts lines' i = orientation # rest'"
        by (cases "record_parts lines' i") auto
      from d Cons c' have "drop 1 rest = drop 1 rest'" by simp
      with Cons c' True assms(1) show ?thesis by (simp add: IH)
    qed
  qed
qed

lemma py_int_too_long: "py_int (replicate 4301 (CHR ''9'')) = Inl ValueError"
  by (simp add: py_int_def Let_def py_strip_def is_space_def is_digit_def max_str_digits_def)

text \<open>
  Claim C3, as amended. When the first line is read by \<^verbatim>\<open>int\<close> as the photo count \<open>N\<close> and
  \<open>N\<close> exceeds the number of lines after the first, the parser fails with \<^verbatim>\<open>IndexError\<close>
  and produces no slide list; when \<^verbatim>\<open>int\<close> refuses the first line, the parser fails with
  the error of \<^verbatim>\<open>int\<close>. When \<open>N\<close> is at most the number of lines after the first, the lines
  after the \<open>N\<close>-th record are ignored, and the declared tag count of a record is never read:
  two inputs whose records differ only in that token are parsed alike.
\<close>

theorem read_input_count_mismatch:
  "(lines \<noteq> [] \<and> py_int (py_strip (hd lines)) = Inr N \<and> int (length lines) - 1 < N
      \<longrightarrow> read_input lines = Inl IndexError)
   \<and> (lines \<noteq> [] \<and> py_int (py_strip (hd lines)) = Inr N \<and> N \<le> int (length lines) - 1
      \<longrightarrow> read_input (lines @ extra) = read_input lines)
   \<and> (lines \<noteq> [] \<and> length lines' = length lines \<and> hd lines' = hd lines
       \<and> list_all2 same_but_count (tl lines) (tl lines')
      \<longrightarrow> read_input lines' = read_input lines)
   \<and> (lines \<noteq> [] \<and> py_int (py_strip (hd lines)) = Inl e \<longrightarrow> read_input lines = Inl e)"
proof (intro conjI impI)
  assume a: "lines \<noteq> [] \<and> py_int (py_strip (hd lines)) = Inl e"
  then have ne: "lines \<noteq> []" and E: "py_int (py_strip (hd lines)) = Inl e" by simp_all
  show "read_input lines = Inl e"
    by (simp only: read_input_nonempty [OF ne] E sum.case)
next
  assume a: "lines \<noteq> [] \<and> py_int (py_strip (hd lines)) = Inr N \<and> int (length lines) - 1 < N"
  then have ne: "lines \<noteq> []" and N: "py_int (py_strip (hd lines)) = Inr N"
    and big: "int (length lines) - 1 < N" by simp_all
  from ne have "1 \<le> length lines" by (cases lines) auto
  with big have "length lines \<in> set [1..<nat (N + 1)]" by auto
  then have "\<exists>i\<in>set [1..<nat (N + 1)]. length lines \<le> i" by blast
  from read_loop_past_end [OF this]
  have "read_loop lines [1..<nat (N + 1)] [] [] = Inl IndexError" .
  then show "read_input lines = Inl IndexError"
    by (simp only: read_input_nonempty [OF ne] N sum.case)
next
  assume a: "lines \<noteq> [] \<and> py_int (py_strip (hd lines)) = Inr N \<and> N \<le> int (length lines) - 1"
  then have ne: "lines \<noteq> []" and N: "py_int (py_strip (hd lines)) = Inr N"
    and small: "N \<le> int (length lines) - 1" by simp_all
  from ne have ne': "lines @ extra \<noteq> []" and hd: "hd (lines @ extra) = hd lines" by simp_all
  from small have "\<forall>i\<in>set [1..<nat (N + 1)]. i < length lines" by auto
  from read_loop_append [OF this]
  have "read_loop (lines @ extra) [1..<nat (N + 1)] [] [] = read_loop lines [1..<nat (N + 1)] [] []" .
  then show "read_input (lines @ extra) = read_input lines"
    by (simp only: read_input_nonempty [OF ne] read_input_nonempty [OF ne'] hd N sum.case)
next
  assume a: "lines \<noteq> [] \<and> length lines' = length lines \<and> hd lines' = hd lines
       \<and> list_all2 same_but_count (tl lines) (tl lines')"
  then have ne: "lines \<noteq> []" and len: "length lines' = length lines"
    and hd: "hd lines' = hd lines"
    and all: "list_all2 same_but_count (tl lines) (tl lines')" by simp_all
  from ne len have ne': "lines' \<noteq> []" by auto
  have same: "\<forall>i\<in>set is. i < length lines \<longrightarrow> same_but_count (lines ! i) (lines' ! i)"
    if "\<forall>i\<in>set is. 1 \<le> i" for "is"
  proof (intro ballI impI)
    fix i assume "i \<in> set is" and i: "i < length lines"
    with that have i1: "1 \<le> i" by simp
    with i have "i - 1 < length (tl lines)" by simp
    with all have "same_but_count (tl lines ! (i - 1)) (tl lines' ! (i - 1))"
      by (simp add: list_all2_nthD)
    moreover have "tl lines ! (i - 1) = lines ! i" "tl lines' ! (i - 1) = lines' ! i"
      using i i1 ne ne' len by (simp_all add: nth_tl)
    ultimately show "same_but_count (lines ! i) (lines' ! i)" by simp
  qed
  show "read_input lines' = read_input lines"
  proof (cases "py_int (py_strip (hd lines))")
    case (Inl e)
    then show ?thesis
      by (simp only: read_input_nonempty [OF ne] read_input_nonempty [OF ne'] hd sum.case)
  next
    case (Inr M)
    have "\<forall>i\<in>set [1..<nat (M + 1)]. 1 \<le> i" by simp
    from read_loop_same_but_count [OF len same [OF this]]
    have "read_loop lines' [1..<nat (M + 1)] [] [] = read_loop lines [1..<nat (M + 1)] [] []" .
    with Inr show ?thesis
      by (simp only: read_input_nonempty [OF ne] read_input_nonempty [OF ne'] hd sum.case)
  qed
qed

text \<open>
  The claim C3 as first stated (a count that does not match the number of records, or a
  declared tag count that does not match the tags present, makes the parser fail) does not
  hold: the input below declares one photo and holds two records, the first of which
  declares five tags and lists two, and it is parsed without error.
\<close>

theorem read_input_no_format_error_counterexample:
  "\<not> well_formed (map (\<lambda>s. s @ [CHR 0x0A]) [''1'', ''H 5 a b'', ''H 1 c''])
   \<and> read_input (map (\<lambda>s. s @ [CHR 0x0A]) [''1'', ''H 5 a b'', ''H 1 c''])
       = Inr [([0], {''a'', ''b''})]"
  by code_simp


theorem read_input_count_mismatch_witness:
  "read_input (map (\<lambda>s. s @ [CHR 0x0A]) [''3'', ''H 5 a b'', ''H 1 c'']) = Inl IndexError
   \<and> read_input (map (\<lambda>s. s @ [CHR 0x0A]) [''1'', ''H 2 a b'']
                  @ map (\<lambda>s. s @ [CHR 0x0A]) [''H 1 c''])
       = read_input (map (\<lambda>s. s @ [CHR 0x0A]) [''1'', ''H 2 a b''])
   \<and> read_input (map (\<lambda>s. s @ [CHR 0x0A]) [''1'', ''H 7 a b''])
       = read_input (map (\<lambda>s. s @ [CHR 0x0A]) [''1'', ''H 2 a b''])
   \<and> read_input (map (\<lambda>s. s @ [CHR 0x0A]) [''1'', ''H 2 a b'']) = Inr [([0], {''a'', ''b''})]
   \<and> read_input [replicate 4301 (CHR ''9''), ''H 1 a''] = Inl ValueError"
proof -
  let ?A = "map (\<lambda>s. s @ [CHR 0x0A]) [''3'', ''H 5 a b'', ''H 1 c'']"
  let ?B = "map (\<lambda>s. s @ [CHR 0x0A]) [''1'', ''H 2 a b'']"
  let ?B' = "map (\<lambda>s. s @ [CHR 0x0A]) [''1'', ''H 7 a b'']"
  let ?E = "map (\<lambda>s. s @ [CHR 0x0A]) [''H 1 c'']"
  let ?L = "[replicate 4301 (CHR ''9''), ''H 1 a'']"
  have ha: "?A \<noteq> [] \<and> py_int (py_strip (hd ?A)) = Inr 3 \<and> int (length ?A) - 1 < 3"
    by code_simp
  have hb: "?B \<noteq> [] \<and> py_int (py_strip (hd ?B)) = Inr 1 \<and> 1 \<le> int (length ?B) - 1"
    by code_simp
  have hc: "?B \<noteq> [] \<and> length ?B' = length ?B \<and> hd ?B' = hd ?B
       \<and> list_all2 same_but_count (tl ?B) (tl ?B')"
    by code_simp
  have "py_strip (replicate 4301 (CHR ''9'')) = replicate 4301 (CHR ''9'')"
    by (simp add: py_strip_def is_space_def)
  then have hd: "?L \<noteq> [] \<and> py_int (py_strip (hd ?L)) = Inl ValueError"
    by (simp add: py_int_too_long)
  have a: "read_input ?A = Inl IndexError"
    by (rule read_input_count_mismatch
          [where lines = ?A and N = 3, THEN conjunct1, THEN mp, OF ha])
  have b: "read_input (?B @ ?E) = read_input ?B"
    by (rule read_input_count_mismatch
          [where lines = ?B and N = 1 and extra = ?E, THEN conjunct2, THEN conjunct1, THEN mp, OF hb])
  have c: "read_input ?B' = read_input ?B"
    by (rule read_input_count_mismatch
          [where lines = ?B and lines' = ?B',
           THEN conjunct2, THEN conjunct2, THEN conjunct1, THEN mp, OF hc])
  have d: "read_input ?B = Inr [([0], {''a'', ''b''})]"
    by code_simp
  have e: "read_input ?L = Inl ValueError"
    by (rule read_input_count_mismatch
          [where lines = ?L and e = ValueError,
           THEN conjunct2, THEN conjunct2, THEN conjunct2, THEN mp, OF hd])
  from a b c d e show ?thesis by (intro conjI)
qed

section \<open>Properties of tour extraction\<close>

lemma next_slide_cases:
  "next_slide x c js = c \<and> (\<forall>j\<in>set js. j = c \<or> \<not> activated x c j)
   \<or> (next_slide x c js \<in> set js \<and> next_slide x c js \<noteq> c \<and> activated x c (next_slide x c js))"
  by (induction js) (auto simp: activated_def)

lemma next_slide_stuck:
  "\<forall>j\<in>set js. j = c \<or> \<not> activated x c j \<Longrightarrow> next_slide x c js = c"
  by (induction js) (auto simp: activated_def)

lemma next_slide_less: "c < S \<Longrightarrow> next_slide x c [0..<S] < S"
  using next_slide_cases [of x c "[0..<S]"] by auto

lemma length_visited [simp]: "length (visited x S n c) = n"
  by (induction n arbitrary: c) auto

lemma visited_less: "c < S \<Longrightarrow> \<forall>v\<in>set (visited x S n c). v < S"
proof (induction n arbitrary: c)
  case 0 then show ?case by simp
next
  case (Suc n)
  from Suc.IH [OF next_slide_less [OF Suc.prems]] Suc.prems show ?case by simp
qed

lemma extract_loop_visited:
  "\<forall>v\<in>set (visited x S n c). v < length photos \<Longrightarrow>
   extract_loop x photos S n acc c = Inr (acc @ map (\<lambda>v. sort (fst (photos ! v))) (visited x S n c))"
  by (induction n arbitrary: acc c) auto

lemma extract_total:
  assumes "S \<le> length photos"
  shows "extract_slideshow_from_gurobi x photos S = Inr (map (\<lambda>v. sort (fst (photos ! v))) (tour x S))"
proof (cases "S = 0")
  case True
  then show ?thesis by (simp add: extract_slideshow_from_gurobi_def tour_def)
next
  case False
  then have "\<forall>v\<in>set (visited x S S 0). v < S" by (intro visited_less) simp
  with assms have "\<forall>v\<in>set (visited x S S 0). v < length photos" by auto
  then show ?thesis
    by (simp add: extract_slideshow_from_gurobi_def tour_def extract_loop_visited)
qed

lemma visited_nth_Suc:
  "Suc k < n \<Longrightarrow> visited x S n c ! Suc k = next_slide x (visited x S n c ! k) [0..<S]"
proof (induction n arbitrary: c k)
  case 0 then show ?case by simp
next
  case (Suc n)
  show ?case
  proof (cases k)
    case 0
    with Suc.prems obtain n' where "n = Suc n'" by (cases n) auto
    with 0 show ?thesis by simp
  next
    case (Suc k')
    with Suc.prems Suc.IH [of k'] show ?thesis by simp
  qed
qed

lemma visited_stuck:
  assumes "k < n" "next_slide x (visited x S n c ! k) [0..<S] = visited x S n c ! k"
    "k \<le> m" "m < n"
  shows "visited x S n c ! m = visited x S n c ! k"
  using assms(3,4)
proof (induction m)
  case 0 then show ?case by simp
next
  case (Suc m)
  show ?case
  proof (cases "k = Suc m")
    case True then show ?thesis by simp
  next
    case False
    with Suc.prems have km: "k \<le> m" "m < n" by auto
    from Suc.IH [OF km] have "visited x S n c ! m = visited x S n c ! k" .
    with visited_nth_Suc [OF Suc.prems(2), of x S c] assms(2) show ?thesis by simp
  qed
qed


lemma filter_singleton_unique:
  assumes "length (filter P xs) = 1"
  shows "\<exists>!a. a \<in> set xs \<and> P a"
proof -
  from assms obtain c where c: "filter P xs = [c]"
    by (cases "filter P xs") auto
  then have "set (filter P xs) = {c}" by simp
  then have "\<And>a. (a \<in> set xs \<and> P a) = (a = c)" by auto
  then show ?thesis by simp
qed

lemma out_degree_one_ex1:
  assumes "out_degree_one x S" "i < S"
  shows "\<exists>!j. j < S \<and> j \<noteq> i \<and> activated x i j"
proof -
  from assms have "length (filter (\<lambda>j. j \<noteq> i \<and> activated x i j) [0..<S]) = 1"
    by (simp add: out_degree_one_def out_degree_def)
  from filter_singleton_unique [OF this] show ?thesis by simp
qed

lemma next_slide_unique:
  assumes "out_degree_one x S" "c < S" "j < S" "j \<noteq> c" "activated x c j"
  shows "next_slide x c [0..<S] = j"
proof -
  from assms(1,2) have ex1: "\<exists>!j. j < S \<and> j \<noteq> c \<and> activated x c j"
    by (rule out_degree_one_ex1)
  from next_slide_cases [of x c "[0..<S]"] assms(3,4,5)
  have "next_slide x c [0..<S] < S \<and> next_slide x c [0..<S] \<noteq> c
        \<and> activated x c (next_slide x c [0..<S])"
    by auto
  with ex1 assms(3,4,5) show ?thesis by blast
qed

lemma cycle_next:
  assumes od: "out_degree_one x S" and hc: "hamiltonian_cycle x S p" and k: "k < S"
  shows "next_slide x (p ! k) [0..<S] = p ! ((k + 1) mod S)"
proof -
  from hc k have pk: "p ! k < S" and len: "length p = S" and dist: "distinct p"
    and setp: "set p = {..<S}"
    and act: "activated x (p ! k) (p ! ((k + 1) mod S))"
    by (auto simp: hamiltonian_cycle_def)
  from out_degree_one_ex1 [OF od pk] obtain j where j: "j < S" "j \<noteq> p ! k"
    by auto
  have "S \<noteq> 1" using j pk by auto
  with k have S2: "2 \<le> S" by simp
  have k1: "(k + 1) mod S < S" using k by simp
  have "(k + 1) mod S \<noteq> k"
  proof (cases "k + 1 < S")
    case True then show ?thesis by simp
  next
    case False
    with k have "k + 1 = S" by simp
    then show ?thesis using S2 by simp
  qed
  with dist len k k1 have ne: "p ! ((k + 1) mod S) \<noteq> p ! k"
    by (simp add: nth_eq_iff_index_eq)
  have lt: "p ! ((k + 1) mod S) < S" using setp len k1 nth_mem [of "(k + 1) mod S" p] by auto
  show ?thesis by (rule next_slide_unique [OF od pk lt ne act])
qed

lemma tour_nth_cycle:
  assumes od: "out_degree_one x S" and hc: "hamiltonian_cycle x S p"
    and k0: "k0 < S" "p ! k0 = 0"
  shows "m < S \<Longrightarrow> tour x S ! m = p ! ((k0 + m) mod S)"
proof (induction m)
  case 0
  then obtain n where "S = Suc n" by (cases S) auto
  then show ?case using k0 by (simp add: tour_def)
next
  case (Suc m)
  then have m: "m < S" by simp
  have km: "(k0 + m) mod S < S" using m by simp
  have "tour x S ! Suc m = next_slide x (tour x S ! m) [0..<S]"
    unfolding tour_def by (rule visited_nth_Suc [OF Suc.prems])
  also have "\<dots> = next_slide x (p ! ((k0 + m) mod S)) [0..<S]"
    using Suc.IH [OF m] by simp
  also have "\<dots> = p ! (((k0 + m) mod S + 1) mod S)"
    by (rule cycle_next [OF od hc km])
  also have "((k0 + m) mod S + 1) mod S = (k0 + Suc m) mod S"
    by (simp add: mod_Suc_eq)
  finally show ?case .
qed

lemma tour_is_rotation:
  assumes od: "out_degree_one x S" and hc: "hamiltonian_cycle x S p"
    and k0: "k0 < S" "p ! k0 = 0"
  shows "tour x S = rotate k0 p"
proof (rule nth_equalityI)
  from hc show "length (tour x S) = length (rotate k0 p)"
    by (simp add: tour_def hamiltonian_cycle_def)
next
  fix m assume "m < length (tour x S)"
  then have m: "m < S" by (simp add: tour_def)
  from hc have len: "length p = S" by (simp add: hamiltonian_cycle_def)
  show "tour x S ! m = rotate k0 p ! m"
    using tour_nth_cycle [OF od hc k0 m] m len by (simp add: nth_rotate)
qed

lemma tour_hamiltonian:
  assumes od: "out_degree_one x S" and hc: "hamiltonian_cycle x S p"
  shows "hamiltonian_cycle x S (tour x S) \<and> (0 < S \<longrightarrow> tour x S ! 0 = 0)"
proof (cases "S = 0")
  case True
  then show ?thesis by (simp add: hamiltonian_cycle_def tour_def)
next
  case False
  then have S: "0 < S" by simp
  from hc have len: "length p = S" and setp: "set p = {..<S}" and dist: "distinct p"
    by (auto simp: hamiltonian_cycle_def)
  from S setp have "0 \<in> set p" by auto
  then obtain k0 where k0: "k0 < S" "p ! k0 = 0"
    using len by (auto simp: in_set_conv_nth)
  have rot: "tour x S = rotate k0 p" by (rule tour_is_rotation [OF od hc k0])
  have nth: "\<And>m. m < S \<Longrightarrow> tour x S ! m = p ! ((k0 + m) mod S)"
    by (rule tour_nth_cycle [OF od hc k0])
  have edges: "\<forall>k<S. activated x (tour x S ! k) (tour x S ! ((k + 1) mod S))"
  proof (intro allI impI)
    fix k assume k: "k < S"
    have k1: "(k + 1) mod S < S" using k by simp
    have km: "(k0 + k) mod S < S" using k by simp
    have "(k0 + (k + 1) mod S) mod S = ((k0 + k) mod S + 1) mod S"
      by (simp add: mod_simps)
    with nth [OF k] nth [OF k1] hc km show "activated x (tour x S ! k) (tour x S ! ((k + 1) mod S))"
      by (simp add: hamiltonian_cycle_def)
  qed
  have "tour x S ! 0 = 0" using nth [OF S] k0 by simp
  with rot len setp dist edges show ?thesis
    by (simp add: hamiltonian_cycle_def)
qed

text \<open>
  Claim C7. For every solved matrix \<open>x\<close> over \<open>S\<close> slides that satisfies the degree
  constraints (one activated outgoing and one activated incoming edge at every node) and
  forms a single Hamiltonian cycle, extraction succeeds and returns the sorted photo
  indices of the slides of \<open>tour x S\<close>; that sequence of slide indices starts at slide 0,
  has exactly \<open>S\<close> elements, contains every slide index below \<open>S\<close> exactly once, each of its
  consecutive pairs is an activated edge of \<open>x\<close>, and every activated edge of \<open>x\<close> between
  two different slides joins an element to its cyclic successor in it.
\<close>

theorem extract_hamiltonian_cycle:
  assumes od: "out_degree_one x S" and "in_degree_one x S"
    and ex: "\<exists>p. hamiltonian_cycle x S p"
    and len: "S \<le> length photos"
  shows "extract_slideshow_from_gurobi x photos S = Inr (map (slide_key photos) (tour x S))
    \<and> length (tour x S) = S
    \<and> (0 < S \<longrightarrow> tour x S ! 0 = 0)
    \<and> distinct (tour x S) \<and> set (tour x S) = {..<S}
    \<and> (\<forall>k. Suc k < S \<longrightarrow> activated x (tour x S ! k) (tour x S ! Suc k))
    \<and> (\<forall>i<S. \<forall>j<S. i \<noteq> j \<and> activated x i j \<longrightarrow>
          (\<exists>k<S. tour x S ! k = i \<and> tour x S ! ((k + 1) mod S) = j))"
proof -
  from ex obtain p where hc: "hamiltonian_cycle x S p" ..
  from tour_hamiltonian [OF od hc]
  have ht: "hamiltonian_cycle x S (tour x S)" and t0: "0 < S \<longrightarrow> tour x S ! 0 = 0"
    by simp_all
  have 1: "extract_slideshow_from_gurobi x photos S = Inr (map (slide_key photos) (tour x S))"
    using extract_total [OF len, of x] by (simp add: slide_key_def [abs_def])
  have 2: "\<forall>k. Suc k < S \<longrightarrow> activated x (tour x S ! k) (tour x S ! Suc k)"
  proof (intro allI impI)
    fix k assume k: "Suc k < S"
    then have "k < S" by simp
    with ht have "activated x (tour x S ! k) (tour x S ! ((k + 1) mod S))"
      by (simp add: hamiltonian_cycle_def)
    with k show "activated x (tour x S ! k) (tour x S ! Suc k)" by simp
  qed
  have 3: "\<forall>i<S. \<forall>j<S. i \<noteq> j \<and> activated x i j \<longrightarrow>
          (\<exists>k<S. tour x S ! k = i \<and> tour x S ! ((k + 1) mod S) = j)"
  proof (intro allI impI)
    fix i j assume i: "i < S" and j: "j < S" and ij: "i \<noteq> j \<and> activated x i j"
    from ht i have "i \<in> set (tour x S)" by (simp add: hamiltonian_cycle_def)
    then obtain k where k: "k < S" "tour x S ! k = i"
      using ht by (auto simp: in_set_conv_nth hamiltonian_cycle_def)
    have "next_slide x i [0..<S] = j"
      using next_slide_unique [OF od i j] ij by auto
    moreover have "next_slide x (tour x S ! k) [0..<S] = tour x S ! ((k + 1) mod S)"
      by (rule cycle_next [OF od ht k(1)])
    ultimately show "\<exists>k<S. tour x S ! k = i \<and> tour x S ! ((k + 1) mod S) = j"
      using k by auto
  qed
  from ht t0 1 2 3 show ?thesis by (simp add: hamiltonian_cycle_def)
qed

lemma next_slide_stuck_upt:
  assumes "\<forall>j<S. j \<noteq> c \<longrightarrow> \<not> activated x c j"
  shows "next_slide x c [0..<S] = c"
proof (rule next_slide_stuck)
  show "\<forall>j\<in>set [0..<S]. j = c \<or> \<not> activated x c j"
    using assms by auto
qed

lemma tour_stuck:
  assumes k: "k < S" and ns: "next_slide x (tour x S ! k) [0..<S] = tour x S ! k"
    and m: "k \<le> m" "m < S"
  shows "tour x S ! m = tour x S ! k"
  unfolding tour_def
  by (rule visited_stuck [OF k ns [unfolded tour_def] m])

lemma tour_0: "0 < S \<Longrightarrow> tour x S ! 0 = 0"
  by (cases S) (simp_all add: tour_def)

lemma length_tour [simp]: "length (tour x S) = S"
  by (simp add: tour_def)

lemma extract_total_key:
  "S \<le> length photos \<Longrightarrow>
   extract_slideshow_from_gurobi x photos S = Inr (map (slide_key photos) (tour x S))"
  using extract_total [of S photos x] by (simp add: slide_key_def [abs_def])

text \<open>
  Claim C10. Extraction is total on arbitrary solution matrices: for every \<open>S \<ge> 1\<close>,
  every slide list of length at least \<open>S\<close> and every assignment \<open>x\<close>, the extractor returns
  a list of exactly \<open>S\<close> entries whose first entry is the sorted photo indices of slide 0;
  when at some step no \<open>j\<close> other than the current slide has its edge activated, the current
  slide is left unchanged and the same slide's entry is appended at all later steps, no
  error being raised.
\<close>

theorem extract_total_any_matrix:
  assumes S: "1 \<le> S" and len: "S \<le> length photos"
  shows "\<exists>order. extract_slideshow_from_gurobi x photos S = Inr order
    \<and> length order = S
    \<and> order ! 0 = sort (fst (photos ! 0))
    \<and> (\<forall>k<S. (\<forall>j<S. j \<noteq> tour x S ! k \<longrightarrow> \<not> activated x (tour x S ! k) j) \<longrightarrow>
          next_slide x (tour x S ! k) [0..<S] = tour x S ! k
          \<and> (\<forall>m. k \<le> m \<and> m < S \<longrightarrow>
                tour x S ! m = tour x S ! k \<and> order ! m = sort (fst (photos ! (tour x S ! k)))))"
proof (intro exI conjI allI impI)
  show "extract_slideshow_from_gurobi x photos S = Inr (map (slide_key photos) (tour x S))"
    by (rule extract_total_key [OF len])
  show "length (map (slide_key photos) (tour x S)) = S" by simp
  show "map (slide_key photos) (tour x S) ! 0 = sort (fst (photos ! 0))"
    using S by (simp add: tour_0 slide_key_def)
next
  fix k assume k: "k < S"
    and no: "\<forall>j<S. j \<noteq> tour x S ! k \<longrightarrow> \<not> activated x (tour x S ! k) j"
  show ns: "next_slide x (tour x S ! k) [0..<S] = tour x S ! k"
    by (rule next_slide_stuck_upt [OF no])
  fix m assume m: "k \<le> m \<and> m < S"
  then have km: "k \<le> m" and mS: "m < S" by simp_all
  show tm: "tour x S ! m = tour x S ! k" by (rule tour_stuck [OF k ns km mS])
  show "map (slide_key photos) (tour x S) ! m = sort (fst (photos ! (tour x S ! k)))"
    using mS tm by (simp add: slide_key_def)
qed

text \<open>
  Claim C4, as amended. For every solved matrix in which some step \<open>k\<close> of the walk from
  slide 0 has no activated edge to another slide, extraction raises no error: the current
  slide keeps its value, and the extractor still returns \<open>S\<close> entries, each the sorted photo
  indices of the slide visited at its step, every entry from step \<open>k\<close> on being that of the
  slide reached at step \<open>k\<close>.
\<close>

theorem extract_no_edge_no_error:
  assumes len: "S \<le> length photos" and k: "k < S"
    and no: "\<forall>j<S. j \<noteq> tour x S ! k \<longrightarrow> \<not> activated x (tour x S ! k) j"
  shows "\<exists>order. extract_slideshow_from_gurobi x photos S = Inr order
    \<and> length order = S
    \<and> next_slide x (tour x S ! k) [0..<S] = tour x S ! k
    \<and> (\<forall>m<S. order ! m = sort (fst (photos ! (tour x S ! m))))
    \<and> (\<forall>m. k \<le> m \<and> m < S \<longrightarrow>
          tour x S ! m = tour x S ! k \<and> order ! m = sort (fst (photos ! (tour x S ! k))))"
proof (intro exI conjI allI impI)
  show "extract_slideshow_from_gurobi x photos S = Inr (map (slide_key photos) (tour x S))"
    by (rule extract_total_key [OF len])
  show "length (map (slide_key photos) (tour x S)) = S" by simp
  show ns: "next_slide x (tour x S ! k) [0..<S] = tour x S ! k"
    by (rule next_slide_stuck_upt [OF no])
  {
    fix m assume "m < S"
    then show "map (slide_key photos) (tour x S) ! m = sort (fst (photos ! (tour x S ! m)))"
      by (simp add: slide_key_def)
  }
  {
    fix m assume m: "k \<le> m \<and> m < S"
    then have km: "k \<le> m" and mS: "m < S" by simp_all
    show tm: "tour x S ! m = tour x S ! k" by (rule tour_stuck [OF k ns km mS])
    show "map (slide_key photos) (tour x S) ! m = sort (fst (photos ! (tour x S ! k)))"
      using mS tm by (simp add: slide_key_def)
  }
qed

lemma less_2_cases_nat: "(j::nat) < 2 \<longleftrightarrow> j = 0 \<or> j = 1"
  by auto

lemma upt3: "[0..<3] = [0, 1, 2]"
  by (simp add: numeral_3_eq_3)

lemma lessThan_3: "{..<3::nat} = {0, 1, 2}"
  by auto

lemma less_3_cases_nat: "(j::nat) < 3 \<longleftrightarrow> j = 0 \<or> j = 1 \<or> j = 2"
  by auto

theorem extract_total_any_matrix_witness:
  "(1::nat) \<le> 2 \<and> 2 \<le> length ([([0], {''a''}), ([2, 1], {''b''})] :: slide list)
   \<and> \<not> (\<exists>j<2. j \<noteq> tour (\<lambda>i j. 0) 2 ! 0 \<and> activated (\<lambda>i j. 0) (tour (\<lambda>i j. 0) 2 ! 0) j)
   \<and> (\<exists>order. extract_slideshow_from_gurobi (\<lambda>i j. 0) [([0], {''a''}), ([2, 1], {''b''})] 2 = Inr order
         \<and> length order = 2 \<and> order ! 0 = [0] \<and> order ! 1 = [0])"
proof -
  let ?x = "(\<lambda>i j. 0) :: solution_x"
  let ?ph = "[([0], {''a''}), ([2, 1], {''b''})] :: slide list"
  have h1: "(1::nat) \<le> 2" by simp
  have h2: "2 \<le> length ?ph" by simp
  have h3: "\<forall>j<2. j \<noteq> tour ?x 2 ! 0 \<longrightarrow> \<not> activated ?x (tour ?x 2 ! 0) j"
    by (simp add: activated_def)
  from h3 have h3': "\<not> (\<exists>j<2. j \<noteq> tour ?x 2 ! 0 \<and> activated ?x (tour ?x 2 ! 0) j)"
    by (simp only: not_ex de_Morgan_conj not_not imp_conv_disj disj_assoc simp_thms)
  from extract_total_any_matrix [OF h1 h2, of ?x] obtain order where
    A: "extract_slideshow_from_gurobi ?x ?ph 2 = Inr order
      \<and> length order = 2
      \<and> order ! 0 = sort (fst (?ph ! 0))
      \<and> (\<forall>k<2. (\<forall>j<2. j \<noteq> tour ?x 2 ! k \<longrightarrow> \<not> activated ?x (tour ?x 2 ! k) j) \<longrightarrow>
          next_slide ?x (tour ?x 2 ! k) [0..<2] = tour ?x 2 ! k
          \<and> (\<forall>m. k \<le> m \<and> m < 2 \<longrightarrow>
                tour ?x 2 ! m = tour ?x 2 ! k \<and> order ! m = sort (fst (?ph ! (tour ?x 2 ! k)))))" ..
  note e = A [THEN conjunct1]
    and l = A [THEN conjunct2, THEN conjunct1]
    and o0 = A [THEN conjunct2, THEN conjunct2, THEN conjunct1]
    and st = A [THEN conjunct2, THEN conjunct2, THEN conjunct2]
  have k0: "(0::nat) < 2" by simp
  have m1: "(0::nat) \<le> 1 \<and> (1::nat) < 2" by simp
  from st [THEN spec, THEN mp, OF k0, THEN mp, OF h3, THEN conjunct2, THEN spec, THEN mp, OF m1]
  have "order ! 1 = sort (fst (?ph ! (tour ?x 2 ! 0)))" by (rule conjunct2)
  then have o1: "order ! 1 = [0]" by (simp add: tour_0)
  from o0 have o0': "order ! 0 = [0]" by simp
  show ?thesis
    by (intro conjI exI [of _ order]) (rule h1 h2 h3' e l o0' o1)+
qed

text \<open>
  The claim C4 as first stated (extraction fails with an error when a step has no
  activated outgoing edge) does not hold: with two slides and no activated edge at all,
  extraction returns slide 0 twice.
\<close>

theorem extract_no_edge_counterexample:
  "\<not> activated (\<lambda>i j. 0) 0 1
   \<and> extract_slideshow_from_gurobi (\<lambda>i j. 0) [([0], {''a''}), ([1], {''b''})] 2 = Inr [[0], [0]]"
  by (simp add: activated_def extract_slideshow_from_gurobi_def numeral_2_eq_2)

theorem extract_no_edge_no_error_witness:
  "3 \<le> length ([([0], {''a''}), ([5, 2], {''b''}), ([3], {''c''})] :: slide list)
   \<and> \<not> (\<exists>j<3. j \<noteq> tour (\<lambda>i j. if i = 0 \<and> j = 1 then 1 else 0) 3 ! 1 \<and>
         activated (\<lambda>i j. if i = 0 \<and> j = 1 then 1 else 0)
             (tour (\<lambda>i j. if i = 0 \<and> j = 1 then 1 else 0) 3 ! 1) j)
   \<and> next_slide (\<lambda>i j. if i = 0 \<and> j = 1 then 1 else 0)
        (tour (\<lambda>i j. if i = 0 \<and> j = 1 then 1 else 0) 3 ! 1) [0..<3]
       = tour (\<lambda>i j. if i = 0 \<and> j = 1 then 1 else 0) 3 ! 1
   \<and> (\<exists>order. extract_slideshow_from_gurobi (\<lambda>i j. if i = 0 \<and> j = 1 then 1 else 0)
                 [([0], {''a''}), ([5, 2], {''b''}), ([3], {''c''})] 3 = Inr order
         \<and> length order = 3 \<and> order ! 0 = [0] \<and> order ! 1 = [2, 5] \<and> order ! 2 = [2, 5])"
proof -
  let ?x = "(\<lambda>i j. if i = 0 \<and> j = 1 then 1 else 0) :: solution_x"
  let ?ph = "[([0], {''a''}), ([5, 2], {''b''}), ([3], {''c''})] :: slide list"
  have t: "tour ?x 3 = [0, 1, 1]"
    by (simp add: tour_def numeral_3_eq_3)
  have h1: "3 \<le> length ?ph" by simp
  have h2: "(1::nat) < 3" by simp
  have h3: "\<forall>j<3. j \<noteq> tour ?x 3 ! 1 \<longrightarrow> \<not> activated ?x (tour ?x 3 ! 1) j"
    unfolding t by (simp add: activated_def)
  from h3 have h3': "\<not> (\<exists>j<3. j \<noteq> tour ?x 3 ! 1 \<and> activated ?x (tour ?x 3 ! 1) j)"
    by (simp only: not_ex de_Morgan_conj not_not imp_conv_disj disj_assoc simp_thms)
  from extract_no_edge_no_error [OF h1 h2 h3] obtain order where
    A: "extract_slideshow_from_gurobi ?x ?ph 3 = Inr order
      \<and> length order = 3
      \<and> next_slide ?x (tour ?x 3 ! 1) [0..<3] = tour ?x 3 ! 1
      \<and> (\<forall>m<3. order ! m = sort (fst (?ph ! (tour ?x 3 ! m))))
      \<and> (\<forall>m. 1 \<le> m \<and> m < 3 \<longrightarrow>
            tour ?x 3 ! m = tour ?x 3 ! 1 \<and> order ! m = sort (fst (?ph ! (tour ?x 3 ! 1))))" ..
  note e = A [THEN conjunct1]
    and l = A [THEN conjunct2, THEN conjunct1]
    and ns = A [THEN conjunct2, THEN conjunct2, THEN conjunct1]
    and al = A [THEN conjunct2, THEN conjunct2, THEN conjunct2, THEN conjunct1]
    and st = A [THEN conjunct2, THEN conjunct2, THEN conjunct2, THEN conjunct2]
  have m0: "(0::nat) < 3" by simp
  have "order ! 0 = sort (fst (?ph ! (tour ?x 3 ! 0)))"
    by (rule al [THEN spec, THEN mp, OF m0])
  then have o0: "order ! 0 = [0]" unfolding t by simp
  have m1: "(1::nat) \<le> 1 \<and> (1::nat) < 3" by simp
  have m2: "(1::nat) \<le> 2 \<and> (2::nat) < 3" by simp
  have "order ! 1 = sort (fst (?ph ! (tour ?x 3 ! 1)))"
    by (rule st [THEN spec, THEN mp, OF m1, THEN conjunct2])
  then have o1: "order ! 1 = [2, 5]" unfolding t by simp
  have "order ! 2 = sort (fst (?ph ! (tour ?x 3 ! 1)))"
    by (rule st [THEN spec, THEN mp, OF m2, THEN conjunct2])
  then have o2: "order ! 2 = [2, 5]" unfolding t by simp
  show ?thesis
    by (intro conjI exI [of _ order]) (rule h1 h3' ns e l o0 o1 o2)+
qed

theorem extract_hamiltonian_cycle_witness:
  "out_degree_one (\<lambda>i j. if (i, j) \<in> {(0, 2), (2, 1), (1, 0)} then 1 else 0) 3
   \<and> in_degree_one (\<lambda>i j. if (i, j) \<in> {(0, 2), (2, 1), (1, 0)} then 1 else 0) 3
   \<and> hamiltonian_cycle (\<lambda>i j. if (i, j) \<in> {(0, 2), (2, 1), (1, 0)} then 1 else 0) 3 [2, 1, 0]
   \<and> extract_slideshow_from_gurobi (\<lambda>i j. if (i, j) \<in> {(0, 2), (2, 1), (1, 0)} then 1 else 0)
        [([0], {''a'', ''b''}), ([4, 1], {''b'', ''c''}), ([3], {''a''})] 3
      = Inr [[0], [3], [1, 4]]
   \<and> distinct (tour (\<lambda>i j. if (i, j) \<in> {(0, 2), (2, 1), (1, 0)} then 1 else 0) 3)"
proof -
  let ?x = "(\<lambda>i j. if (i, j) \<in> {(0, 2), (2, 1), (1, 0)} then 1 else 0) :: solution_x"
  let ?ph = "[([0], {''a'', ''b''}), ([4, 1], {''b'', ''c''}), ([3], {''a''})] :: slide list"
  have od: "out_degree_one ?x 3"
    unfolding out_degree_one_def out_degree_def activated_def less_3_cases_nat upt3
    by simp
  have id: "in_degree_one ?x 3"
    unfolding in_degree_one_def in_degree_def activated_def less_3_cases_nat upt3
    by simp
  have hc: "hamiltonian_cycle ?x 3 [2, 1, 0]"
    unfolding hamiltonian_cycle_def activated_def less_3_cases_nat
    by (auto simp: lessThan_3)
  then have ex: "\<exists>p. hamiltonian_cycle ?x 3 p" ..
  have len: "3 \<le> length ?ph" by simp
  have t: "tour ?x 3 = [0, 2, 1]"
    by (simp add: tour_def numeral_3_eq_3)
  from extract_hamiltonian_cycle [OF od id ex len]
  have "extract_slideshow_from_gurobi ?x ?ph 3 = Inr (map (slide_key ?ph) (tour ?x 3))"
    and d: "distinct (tour ?x 3)"
    by simp_all
  then have "extract_slideshow_from_gurobi ?x ?ph 3 = Inr [[0], [3], [1, 4]]"
    unfolding t by (simp add: slide_key_def)
  with od id hc d show ?thesis by simp
qed

section \<open>Properties of the score audit\<close>

lemma analyze_loop_sum:
  assumes "\<forall>i\<in>set is. order ! i \<in> dom d \<and> order ! (i + 1) \<in> dom d"
  shows "analyze_loop order d is acc =
    Inr (acc + sum_list (map (\<lambda>i. compute_interest (the (d (order ! i))) (the (d (order ! (i + 1))))) is))"
  using assms
proof (induction "is" arbitrary: acc)
  case Nil
  then show ?case by simp
next
  case (Cons i "is")
  from Cons.prems obtain t1 t2 where t: "d (order ! i) = Some t1" "d (order ! (i + 1)) = Some t2"
    by auto
  from Cons.prems have "\<forall>i\<in>set is. order ! i \<in> dom d \<and> order ! (i + 1) \<in> dom d" by simp
  from Cons.IH [OF this] t show ?case by simp
qed

lemma sum_list_upt_lessThan: "sum_list (map f [0..<n]) = (\<Sum>i<n. f i)"
  by (simp add: interv_sum_list_conv_sum_set_nat atLeast0LessThan)

lemma analyze_transitions_sum:
  assumes "set order \<subseteq> dom d"
  shows "analyze_transitions order d =
    Inr (\<Sum>i<length order - 1. compute_interest (the (d (order ! i))) (the (d (order ! (i + 1)))))"
proof -
  have "\<forall>i\<in>set [0..<length order - 1]. order ! i \<in> dom d \<and> order ! (i + 1) \<in> dom d"
  proof
    fix i assume "i \<in> set [0..<length order - 1]"
    then have "i < length order" "i + 1 < length order" by auto
    then have "order ! i \<in> set order" "order ! (i + 1) \<in> set order"
      by (simp_all only: nth_mem)
    with assms show "order ! i \<in> dom d \<and> order ! (i + 1) \<in> dom d" by blast
  qed
  from analyze_loop_sum [OF this, of 0] show ?thesis
    by (simp add: analyze_transitions_def sum_list_upt_lessThan)
qed

lemma analyze_transitions_short:
  "length order \<le> 1 \<Longrightarrow> analyze_transitions order d = Inr 0"
  by (simp add: analyze_transitions_def)

lemma fold_update_map_of:
  "fold (\<lambda>photo d. d(sort (fst photo) \<mapsto> snd photo)) photos m
   = m ++ map_of (rev (map (\<lambda>photo. (sort (fst photo), snd photo)) photos))"
proof (induction photos arbitrary: m)
  case Nil
  then show ?case by simp
next
  case (Cons p ps)
  have "fold (\<lambda>photo d. d(sort (fst photo) \<mapsto> snd photo)) (p # ps) m
        = fold (\<lambda>photo d. d(sort (fst photo) \<mapsto> snd photo)) ps (m(sort (fst p) \<mapsto> snd p))"
    by simp
  also have "\<dots> = m(sort (fst p) \<mapsto> snd p)
          ++ map_of (rev (map (\<lambda>photo. (sort (fst photo), snd photo)) ps))"
    by (rule Cons.IH)
  also have "\<dots> = m ++ map_of (rev (map (\<lambda>photo. (sort (fst photo), snd photo)) (p # ps)))"
    by (rule ext) (simp add: map_add_def split: option.splits)
  finally show ?case .
qed

lemma photos_dict_map_of:
  "photos_dict photos = map_of (rev (map (\<lambda>photo. (sort (fst photo), snd photo)) photos))"
  by (simp add: photos_dict_def fold_update_map_of)

lemma dom_photos_dict: "dom (photos_dict photos) = (\<lambda>photo. sort (fst photo)) ` set photos"
  by (simp add: photos_dict_map_of dom_map_of_conv_image_fst image_image)

lemma photos_dict_slide_key:
  assumes "distinct (map (\<lambda>photo. sort (fst photo)) photos)" "v < length photos"
  shows "photos_dict photos (slide_key photos v) = Some (snd (photos ! v))"
proof -
  let ?kvs = "rev (map (\<lambda>photo. (sort (fst photo), snd photo)) photos)"
  have "map fst ?kvs = rev (map (\<lambda>photo. sort (fst photo)) photos)"
    by (simp add: rev_map comp_def)
  with assms(1) have d: "distinct (map fst ?kvs)" by simp
  from assms(2) have "(slide_key photos v, snd (photos ! v)) \<in> set ?kvs"
    by (auto simp: slide_key_def intro!: image_eqI [where x = "photos ! v"])
  with d show ?thesis by (simp add: photos_dict_map_of)
qed

lemma tour_less: "v \<in> set (tour x S) \<Longrightarrow> v < S"
proof (cases "S = 0")
  case True
  assume "v \<in> set (tour x S)"
  with True show ?thesis by (simp add: tour_def)
next
  case False
  assume v: "v \<in> set (tour x S)"
  from False have "\<forall>v\<in>set (visited x S S 0). v < S" by (intro visited_less) simp
  with v show ?thesis by (simp add: tour_def)
qed

lemma extracted_keys_in_dict:
  assumes "S \<le> length photos"
  shows "set (map (slide_key photos) (tour x S)) \<subseteq> dom (photos_dict photos)"
proof
  fix k assume "k \<in> set (map (slide_key photos) (tour x S))"
  then obtain v where v: "v \<in> set (tour x S)" "k = slide_key photos v" by auto
  from tour_less [OF v(1)] assms have "v < length photos" by simp
  then have "photos ! v \<in> set photos" by simp
  with v(2) show "k \<in> dom (photos_dict photos)"
    by (auto simp: dom_photos_dict slide_key_def)
qed


text \<open>
  Claim C8. For every order of \<open>k\<close> slides whose keys are in the lookup table, as those of
  every extracted order are, the score audit returns the sum of the interest score over the
  \<open>k - 1\<close> consecutive pairs of the order; the edge from the last slide back to the first
  is not part of the sum. For an order of at most one slide it returns 0. On the order
  extracted from slides with distinct keys the summands are the interest scores of the
  tag sets of the consecutive slides visited.
\<close>

theorem analyze_transitions_path_score:
  "(length order \<le> 1 \<longrightarrow> analyze_transitions order d = Inr 0)
   \<and> (set order \<subseteq> dom d \<longrightarrow>
        analyze_transitions order d =
          Inr (\<Sum>i<length order - 1.
                 compute_interest (the (d (order ! i))) (the (d (order ! (i + 1))))))
   \<and> (S \<le> length photos \<and> distinct (map (\<lambda>photo. sort (fst photo)) photos)
        \<and> extract_slideshow_from_gurobi x photos S = Inr order \<longrightarrow>
        analyze_transitions order (photos_dict photos) =
          Inr (\<Sum>i<length order - 1.
                 compute_interest (snd (photos ! (tour x S ! i)))
                   (snd (photos ! (tour x S ! (i + 1))))))"
proof (intro conjI impI)
  assume "length order \<le> 1"
  then show "analyze_transitions order d = Inr 0" by (rule analyze_transitions_short)
next
  assume "set order \<subseteq> dom d"
  then show "analyze_transitions order d =
      Inr (\<Sum>i<length order - 1.
             compute_interest (the (d (order ! i))) (the (d (order ! (i + 1)))))"
    by (rule analyze_transitions_sum)
next
  assume a: "S \<le> length photos \<and> distinct (map (\<lambda>photo. sort (fst photo)) photos)
        \<and> extract_slideshow_from_gurobi x photos S = Inr order"
  then have len: "S \<le> length photos"
    and dist: "distinct (map (\<lambda>photo. sort (fst photo)) photos)"
    and e: "extract_slideshow_from_gurobi x photos S = Inr order"
    by simp_all
  from e extract_total_key [OF len, of x]
  have order: "order = map (slide_key photos) (tour x S)" by simp
  then have lo: "length order = S" by simp
  have sub: "set order \<subseteq> dom (photos_dict photos)"
    unfolding order by (rule extracted_keys_in_dict [OF len])
  have tags: "the (photos_dict photos (order ! i)) = snd (photos ! (tour x S ! i))"
    if "i < S" for i
  proof -
    from that have "tour x S ! i \<in> set (tour x S)" by simp
    from tour_less [OF this] len have "tour x S ! i < length photos" by simp
    from photos_dict_slide_key [OF dist this] that show ?thesis
      by (simp add: order)
  qed
  have "(\<Sum>i<length order - 1.
           compute_interest (the (photos_dict photos (order ! i)))
             (the (photos_dict photos (order ! (i + 1)))))
      = (\<Sum>i<length order - 1.
           compute_interest (snd (photos ! (tour x S ! i)))
             (snd (photos ! (tour x S ! (i + 1)))))"
  proof (rule sum.cong)
    fix i assume "i \<in> {..<length order - 1}"
    then have "i < S" "i + 1 < S" using lo by auto
    then show "compute_interest (the (photos_dict photos (order ! i)))
             (the (photos_dict photos (order ! (i + 1))))
        = compute_interest (snd (photos ! (tour x S ! i)))
             (snd (photos ! (tour x S ! (i + 1))))"
      by (simp only: tags)
  qed simp
  with analyze_transitions_sum [OF sub]
  show "analyze_transitions order (photos_dict photos) =
      Inr (\<Sum>i<length order - 1.
             compute_interest (snd (photos ! (tour x S ! i)))
               (snd (photos ! (tour x S ! (i + 1)))))"
    by simp
qed

lemma sum_lessThan_2: "(\<Sum>i<2. f i) = f 0 + (f (1::nat) :: int)"
  by (simp add: numeral_2_eq_2)

theorem analyze_transitions_path_score_witness:
  "analyze_transitions [[7]] Map.empty = Inr 0
   \<and> analyze_transitions [[0], [2, 5], [3]]
        (photos_dict [([0], {''a'', ''b''}), ([5, 2], {''b'', ''c''}), ([3], {''a'', ''c'', ''d''})])
      = Inr 2
   \<and> extract_slideshow_from_gurobi
        (\<lambda>i j. if (i, j) \<in> {(0, 2), (2, 1), (1, 0)} then 1 else 0)
        [([0], {''a'', ''b''}), ([5, 2], {''b'', ''c''}), ([3], {''a'', ''c'', ''d''})] 3
      = Inr [[0], [3], [2, 5]]
   \<and> analyze_transitions [[0], [3], [2, 5]]
        (photos_dict [([0], {''a'', ''b''}), ([5, 2], {''b'', ''c''}), ([3], {''a'', ''c'', ''d''})])
      = Inr 2"
proof -
  let ?ph = "[([0], {''a'', ''b''}), ([5, 2], {''b'', ''c''}), ([3], {''a'', ''c'', ''d''})] :: slide list"
  let ?d = "photos_dict ?ph"
  let ?x = "(\<lambda>i j. if (i, j) \<in> {(0, 2), (2, 1), (1, 0)} then 1 else 0) :: solution_x"
  let ?o1 = "[[0], [2, 5], [3]] :: nat list list"
  let ?o2 = "[[0], [3], [2, 5]] :: nat list list"
  have d0: "?d [0] = Some {''a'', ''b''}" and d1: "?d [2, 5] = Some {''b'', ''c''}"
    and d2: "?d [3] = Some {''a'', ''c'', ''d''}"
    by (simp_all add: photos_dict_def)
  have i01: "compute_interest {''a'', ''b''} {''b'', ''c''} = 1"
    by (simp add: compute_interest_def len_set_def)
  have i12: "compute_interest {''b'', ''c''} {''a'', ''c'', ''d''} = 1"
    by (simp add: compute_interest_def len_set_def)
  have i02: "compute_interest {''a'', ''b''} {''a'', ''c'', ''d''} = 1"
    by (simp add: compute_interest_def len_set_def)
  have i21: "compute_interest {''a'', ''c'', ''d''} {''b'', ''c''} = 1"
    by (simp add: compute_interest_def len_set_def)
  have l1: "length [[7::nat]] \<le> 1" by simp
  have w1: "analyze_transitions [[7]] Map.empty = Inr 0"
    by (rule analyze_transitions_path_score
          [of "[[7]]" Map.empty, THEN conjunct1, THEN mp, OF l1])
  have s1: "set ?o1 \<subseteq> dom ?d" using d0 d1 d2 by (simp add: dom_def)
  have "analyze_transitions ?o1 ?d =
          Inr (\<Sum>i<length ?o1 - 1. compute_interest (the (?d (?o1 ! i))) (the (?d (?o1 ! (i + 1)))))"
    by (rule analyze_transitions_path_score
          [of ?o1 ?d, THEN conjunct2, THEN conjunct1, THEN mp, OF s1])
  then have w2: "analyze_transitions ?o1 ?d = Inr 2"
    by (simp add: sum_lessThan_2 d0 d1 d2 i01 i12)
  have t: "tour ?x 3 = [0, 2, 1]"
    by (simp add: tour_def numeral_3_eq_3)
  have e: "extract_slideshow_from_gurobi ?x ?ph 3 = Inr ?o2"
    by (simp add: extract_slideshow_from_gurobi_def numeral_3_eq_3)
  have h3: "3 \<le> length ?ph \<and> distinct (map (\<lambda>photo. sort (fst photo)) ?ph)
        \<and> extract_slideshow_from_gurobi ?x ?ph 3 = Inr ?o2"
    using e by simp
  have "analyze_transitions ?o2 ?d =
          Inr (\<Sum>i<length ?o2 - 1.
                 compute_interest (snd (?ph ! (tour ?x 3 ! i))) (snd (?ph ! (tour ?x 3 ! (i + 1)))))"
    by (rule analyze_transitions_path_score
          [where order = ?o2 and S = 3 and photos = ?ph and x = ?x, THEN conjunct2, THEN conjunct2, THEN mp, OF h3])
  then have w3: "analyze_transitions ?o2 ?d = Inr 2"
    unfolding t by (simp add: sum_lessThan_2 i02 i21)
  from w1 w2 e w3 show ?thesis by (intro conjI)
qed

section \<open>Properties of the solver call and of the entry point\<close>

lemma create_not_optimal:
  "Status (optimize (build_model photos)) \<noteq> OPTIMAL \<Longrightarrow>
   create_optimized_slideshow optimize photos = Inr ([NoOptimal], [], 0)"
  by (simp add: create_optimized_slideshow_def Let_def)

lemma create_optimal:
  "Status (optimize (build_model photos)) = OPTIMAL \<Longrightarrow>
   create_optimized_slideshow optimize photos =
     Inr ([OptimalScore (ObjVal (optimize (build_model photos)))],
          map (slide_key photos) (tour (X_val (optimize (build_model photos))) (length photos)),
          ObjVal (optimize (build_model photos)))"
  by (simp add: create_optimized_slideshow_def Let_def extract_total_key)

lemma main_no_order:
  assumes "length argv = 2" "fs (argv ! 1) = Some lines" "read_input lines = Inr photos"
    "create_optimized_slideshow optimize photos = Inr (msgs, [], score)"
  shows "main argv fs optimize = Inr \<lparr> printed = msgs @ [NoSolution], written = None \<rparr>"
  using assms by (simp add: main_def)

text \<open>
  Claim C5, as amended. Only the status \<open>OPTIMAL\<close> leads to extraction. Whenever the solver
  returns any other status, the status of a run stopped at the time limit with a feasible
  solution included, the caller discards the solution: it returns the empty order and the
  score 0, and \<^verbatim>\<open>main\<close> reports that no solution was found and writes no output. Under
  \<open>OPTIMAL\<close> the caller returns the extracted tour and the objective value.
\<close>

theorem only_optimal_is_extracted:
  "(Status (optimize (build_model photos)) \<noteq> OPTIMAL \<longrightarrow>
      create_optimized_slideshow optimize photos = Inr ([NoOptimal], [], 0))
   \<and> (Status (optimize (build_model photos)) \<noteq> OPTIMAL \<and> length argv = 2
       \<and> fs (argv ! 1) = Some lines \<and> read_input lines = Inr photos \<longrightarrow>
      main argv fs optimize = Inr \<lparr> printed = [NoOptimal, NoSolution], written = None \<rparr>)
   \<and> (Status (optimize (build_model photos)) = OPTIMAL \<longrightarrow>
      create_optimized_slideshow optimize photos =
        Inr ([OptimalScore (ObjVal (optimize (build_model photos)))],
             map (slide_key photos) (tour (X_val (optimize (build_model photos))) (length photos)),
             ObjVal (optimize (build_model photos))))"
proof (intro conjI impI)
  assume "Status (optimize (build_model photos)) \<noteq> OPTIMAL"
  then show "create_optimized_slideshow optimize photos = Inr ([NoOptimal], [], 0)"
    by (rule create_not_optimal)
next
  assume a: "Status (optimize (build_model photos)) \<noteq> OPTIMAL \<and> length argv = 2
       \<and> fs (argv ! 1) = Some lines \<and> read_input lines = Inr photos"
  then have c: "create_optimized_slideshow optimize photos = Inr ([NoOptimal], [], 0)"
    by (simp add: create_not_optimal)
  from a have "length argv = 2" "fs (argv ! 1) = Some lines" "read_input lines = Inr photos"
    by simp_all
  with c show "main argv fs optimize = Inr \<lparr> printed = [NoOptimal, NoSolution], written = None \<rparr>"
    by (simp add: main_def)
next
  assume "Status (optimize (build_model photos)) = OPTIMAL"
  then show "create_optimized_slideshow optimize photos =
        Inr ([OptimalScore (ObjVal (optimize (build_model photos)))],
             map (slide_key photos) (tour (X_val (optimize (build_model photos))) (length photos)),
             ObjVal (optimize (build_model photos)))"
    by (rule create_optimal)
qed

lemma single_photos: "read_input single_lines = Inr [([0], {''a''})]"
  by code_simp

lemma time_limit_feasible:
  "feasible (build_model [([2], {''a''}), ([0, 3], {''d'', ''e'', ''f''})]) time_limit_result"
  by (simp add: feasible_def build_model_def Let_def degree_constrs_def subtour_constrs_def
      lin_value_def var_value_def time_limit_result_def numeral_2_eq_2)

text \<open>
  The claim C5 as first stated (a feasible solution returned at the time limit is treated as
  a usable tour, extracted and emitted) does not hold: here the solver stops at the time
  limit with an assignment that is feasible for the model of the two slides of the example
  input and is a Hamiltonian cycle through them; the caller returns the empty order and
  nothing is written.
\<close>

theorem time_limit_tour_counterexample:
  "Status time_limit_result = TIME_LIMIT
   \<and> feasible (build_model [([2], {''a''}), ([0, 3], {''d'', ''e'', ''f''})]) time_limit_result
   \<and> hamiltonian_cycle (X_val time_limit_result) 2 [0, 1]
   \<and> create_optimized_slideshow (\<lambda>m. time_limit_result)
        [([2], {''a''}), ([0, 3], {''d'', ''e'', ''f''})]
      = Inr ([NoOptimal], [], 0)
   \<and> main [''slideshow.py'', ''in.txt''] example_fs (\<lambda>m. time_limit_result)
      = Inr \<lparr> printed = [NoOptimal, NoSolution], written = None \<rparr>"
proof (intro conjI)
  show s: "Status time_limit_result = TIME_LIMIT" by (simp add: time_limit_result_def)
  show "feasible (build_model [([2], {''a''}), ([0, 3], {''d'', ''e'', ''f''})]) time_limit_result"
    by (rule time_limit_feasible)
  show "hamiltonian_cycle (X_val time_limit_result) 2 [0, 1]"
    by (auto simp: hamiltonian_cycle_def activated_def time_limit_result_def less_2_cases_nat)
  show c: "create_optimized_slideshow (\<lambda>m. time_limit_result)
        [([2], {''a''}), ([0, 3], {''d'', ''e'', ''f''})] = Inr ([NoOptimal], [], 0)"
    by (simp add: create_optimized_slideshow_def Let_def s)
  have "fs_ok": "example_fs ([''slideshow.py'', ''in.txt''] ! 1) = Some example_lines"
    by (simp add: example_fs_def)
  have l: "length [''slideshow.py'', ''in.txt''] = 2" by simp
  have "main [''slideshow.py'', ''in.txt''] example_fs (\<lambda>m. time_limit_result)
      = Inr \<lparr> printed = [NoOptimal] @ [NoSolution], written = None \<rparr>"
    by (rule main_no_order [where argv = "[''slideshow.py'', ''in.txt'']" and fs = example_fs,
          OF l fs_ok example_read_input c])
  then show "main [''slideshow.py'', ''in.txt''] example_fs (\<lambda>m. time_limit_result)
      = Inr \<lparr> printed = [NoOptimal, NoSolution], written = None \<rparr>"
    by simp
qed


theorem only_optimal_is_extracted_witness:
  "create_optimized_slideshow (\<lambda>m. time_limit_result)
        [([2], {''a''}), ([0, 3], {''d'', ''e'', ''f''})]
      = Inr ([NoOptimal], [], 0)
   \<and> main [''slideshow.py'', ''in.txt''] example_fs (\<lambda>m. time_limit_result)
      = Inr \<lparr> printed = [NoOptimal, NoSolution], written = None \<rparr>
   \<and> create_optimized_slideshow (\<lambda>m. optimal_result)
        [([2], {''a''}), ([0, 3], {''d'', ''e'', ''f''})]
      = Inr ([OptimalScore 0], [[2], [0, 3]], 0)"
proof -
  let ?P = "[([2], {''a''}), ([0, 3], {''d'', ''e'', ''f''})] :: slide list"
  let ?argv = "[''slideshow.py'', ''in.txt'']"
  have h1: "Status ((\<lambda>m. time_limit_result) (build_model ?P)) \<noteq> OPTIMAL"
    by (simp add: time_limit_result_def)
  have h2: "Status ((\<lambda>m. time_limit_result) (build_model ?P)) \<noteq> OPTIMAL \<and> length ?argv = 2
       \<and> example_fs (?argv ! 1) = Some example_lines \<and> read_input example_lines = Inr ?P"
    using h1 example_read_input by (simp add: example_fs_def)
  have h3: "Status ((\<lambda>m. optimal_result) (build_model ?P)) = OPTIMAL"
    by (simp add: optimal_result_def)
  have a: "create_optimized_slideshow (\<lambda>m. time_limit_result) ?P = Inr ([NoOptimal], [], 0)"
    by (rule only_optimal_is_extracted
          [where optimize = "\<lambda>m. time_limit_result" and photos = ?P,
           THEN conjunct1, THEN mp, OF h1])
  have b: "main ?argv example_fs (\<lambda>m. time_limit_result)
      = Inr \<lparr> printed = [NoOptimal, NoSolution], written = None \<rparr>"
    by (rule only_optimal_is_extracted
          [where optimize = "\<lambda>m. time_limit_result" and photos = ?P and argv = ?argv
             and fs = example_fs and lines = example_lines,
           THEN conjunct2, THEN conjunct1, THEN mp, OF h2])
  have t: "tour (X_val optimal_result) 2 = [0, 1]"
    by (simp add: tour_def numeral_2_eq_2 optimal_result_def time_limit_result_def)
  have "create_optimized_slideshow (\<lambda>m. optimal_result) ?P =
        Inr ([OptimalScore (ObjVal optimal_result)],
             map (slide_key ?P) (tour (X_val optimal_result) (length ?P)),
             ObjVal optimal_result)"
    by (rule only_optimal_is_extracted
          [where optimize = "\<lambda>m. optimal_result" and photos = ?P,
           THEN conjunct2, THEN conjunct2, THEN mp, OF h3])
  moreover have "length ?P = 2" by simp
  moreover have "ObjVal optimal_result = 0"
    by (simp add: optimal_result_def time_limit_result_def)
  moreover have "map (slide_key ?P) [0, 1] = [[2], [0, 3]]"
    by (simp add: slide_key_def)
  ultimately have c: "create_optimized_slideshow (\<lambda>m. optimal_result) ?P
      = Inr ([OptimalScore 0], [[2], [0, 3]], 0)"
    by (simp only: t)
  from a b c show ?thesis by (intro conjI)
qed

lemma single_model_infeasible:
  assumes "length photos = 1"
  shows "\<not> feasible (build_model photos) sol"
proof -
  have "Constr [] EQ 1 \<in> set (constrs (build_model photos))"
    using assms
    by (simp add: build_model_def Let_def degree_constrs_def)
  moreover have "\<not> holds sol (Constr [] EQ 1)" by (simp add: lin_value_def)
  ultimately have "\<not> list_all (holds sol) (constrs (build_model photos))"
    unfolding list_all_iff by blast
  then show ?thesis by (simp add: feasible_def)
qed

lemma create_single_sound:
  assumes "length photos = 1" "sound_for optimize (build_model photos)"
  shows "create_optimized_slideshow optimize photos = Inr ([NoOptimal], [], 0)"
proof -
  from single_model_infeasible [OF assms(1)] assms(2)
  have "Status (optimize (build_model photos)) \<noteq> OPTIMAL"
    by (auto simp: sound_for_def)
  then show ?thesis by (rule create_not_optimal)
qed

lemma create_empty:
  "\<exists>msgs score. create_optimized_slideshow optimize [] = Inr (msgs, [], score)"
  by (simp add: create_optimized_slideshow_def Let_def extract_slideshow_from_gurobi_def)

lemma create_small:
  assumes "length photos \<le> 1"
  shows "create_optimized_slideshow optimize photos =
     (if Status (optimize (build_model photos)) = OPTIMAL
      then Inr ([OptimalScore (ObjVal (optimize (build_model photos)))],
                map (\<lambda>photo. sort (fst photo)) photos,
                ObjVal (optimize (build_model photos)))
      else Inr ([NoOptimal], [], 0))"
proof (cases "Status (optimize (build_model photos)) = OPTIMAL")
  case False
  then show ?thesis by (simp add: create_not_optimal)
next
  case True
  have "map (slide_key photos) (tour (X_val (optimize (build_model photos))) (length photos))
      = map (\<lambda>photo. sort (fst photo)) photos"
  proof (cases photos)
    case Nil
    then show ?thesis by (simp add: tour_def)
  next
    case (Cons p ps)
    with assms have "photos = [p]" by simp
    then show ?thesis by (simp add: tour_def slide_key_def)
  qed
  with True show ?thesis by (simp add: create_optimal)
qed

text \<open>
  Claim C6, as amended. There is no shortcut for \<open>S \<le> 1\<close>: the model is built and handed
  to the solver for every slide list, and for \<open>S \<le> 1\<close> too the answer of the solver on that
  model decides the result: under the status \<open>OPTIMAL\<close> the caller returns the order of the
  slide list as it is (the single slide, or no slide) with the objective value of the
  solver, under any other status the empty order and the score 0. For a single slide the
  model holds the degree constraint that an empty sum equals 1, so no assignment is
  feasible; a solver that reports \<open>OPTIMAL\<close> only with a feasible assignment then makes the
  caller return the empty order and the score 0, and with such a solver, for at most one
  slide, \<^verbatim>\<open>main\<close> ends with the message that no solution was found and writes no output.
\<close>

theorem no_shortcut_for_small_inputs:
  "(length photos \<le> 1 \<longrightarrow>
      create_optimized_slideshow optimize photos =
        (if Status (optimize (build_model photos)) = OPTIMAL
         then Inr ([OptimalScore (ObjVal (optimize (build_model photos)))],
                   map (\<lambda>photo. sort (fst photo)) photos,
                   ObjVal (optimize (build_model photos)))
         else Inr ([NoOptimal], [], 0)))
   \<and> (length photos = 1 \<longrightarrow> \<not> feasible (build_model photos) sol)
   \<and> (length photos = 1 \<and> sound_for optimize (build_model photos) \<longrightarrow>
        create_optimized_slideshow optimize photos = Inr ([NoOptimal], [], 0))
   \<and> (length photos \<le> 1 \<and> sound_for optimize (build_model photos) \<and> length argv = 2
       \<and> fs (argv ! 1) = Some lines \<and> read_input lines = Inr photos \<longrightarrow>
        (\<exists>msgs. main argv fs optimize = Inr \<lparr> printed = msgs @ [NoSolution], written = None \<rparr>))"
proof (intro conjI impI)
  assume "length photos \<le> 1"
  then show "create_optimized_slideshow optimize photos =
        (if Status (optimize (build_model photos)) = OPTIMAL
         then Inr ([OptimalScore (ObjVal (optimize (build_model photos)))],
                   map (\<lambda>photo. sort (fst photo)) photos,
                   ObjVal (optimize (build_model photos)))
         else Inr ([NoOptimal], [], 0))"
    by (rule create_small)
next
  assume "length photos = 1"
  then show "\<not> feasible (build_model photos) sol" by (rule single_model_infeasible)
next
  assume "length photos = 1 \<and> sound_for optimize (build_model photos)"
  then show "create_optimized_slideshow optimize photos = Inr ([NoOptimal], [], 0)"
    by (simp add: create_single_sound)
next
  assume a: "length photos \<le> 1 \<and> sound_for optimize (build_model photos) \<and> length argv = 2
       \<and> fs (argv ! 1) = Some lines \<and> read_input lines = Inr photos"
  then have m: "length argv = 2" "fs (argv ! 1) = Some lines" "read_input lines = Inr photos"
    by simp_all
  have "\<exists>msgs score. create_optimized_slideshow optimize photos = Inr (msgs, [], score)"
  proof (cases "length photos = 1")
    case True
    with a have "create_optimized_slideshow optimize photos = Inr ([NoOptimal], [], 0)"
      by (simp add: create_single_sound)
    then show ?thesis by blast
  next
    case False
    with a have "photos = []" by (cases photos) auto
    then show ?thesis by (simp add: create_empty)
  qed
  then obtain msgs score where
    c: "create_optimized_slideshow optimize photos = Inr (msgs, [], score)" by blast
  from m c have "main argv fs optimize = Inr \<lparr> printed = msgs @ [NoSolution], written = None \<rparr>"
    by (simp add: main_def)
  then show "\<exists>msgs. main argv fs optimize = Inr \<lparr> printed = msgs @ [NoSolution], written = None \<rparr>"
    by (rule exI)
qed

text \<open>
  The claim C6 as first stated (for \<open>S \<le> 1\<close> the model is not built and a single-slide
  input yields an output of one line) does not hold: for the input of one horizontal photo
  the model is built, with two constraints that nothing satisfies, and with the solver
  reporting it infeasible the order returned is empty and no output is written.
\<close>

theorem single_slide_no_output_counterexample:
  "read_input single_lines = Inr [([0], {''a''})]
   \<and> constrs (build_model [([0], {''a''})]) = [Constr [] EQ 1, Constr [] EQ 1]
   \<and> create_optimized_slideshow (\<lambda>m. infeasible_result) [([0], {''a''})]
       = Inr ([NoOptimal], [], 0)
   \<and> main [''slideshow.py'', ''one.txt''] example_fs (\<lambda>m. infeasible_result)
       = Inr \<lparr> printed = [NoOptimal, NoSolution], written = None \<rparr>"
proof (intro conjI)
  show "read_input single_lines = Inr [([0], {''a''})]" by (rule single_photos)
  show "constrs (build_model [([0], {''a''})]) = [Constr [] EQ 1, Constr [] EQ 1]"
    by (simp add: build_model_def Let_def degree_constrs_def subtour_constrs_def)
  show c: "create_optimized_slideshow (\<lambda>m. infeasible_result) [([0], {''a''})]
       = Inr ([NoOptimal], [], 0)"
    by (simp add: create_optimized_slideshow_def Let_def infeasible_result_def)
  have l: "length [''slideshow.py'', ''one.txt''] = 2" by simp
  have f: "example_fs ([''slideshow.py'', ''one.txt''] ! 1) = Some single_lines"
    by (simp add: example_fs_def)
  have "main [''slideshow.py'', ''one.txt''] example_fs (\<lambda>m. infeasible_result)
      = Inr \<lparr> printed = [NoOptimal] @ [NoSolution], written = None \<rparr>"
    by (rule main_no_order [where argv = "[''slideshow.py'', ''one.txt'']" and fs = example_fs,
          OF l f single_photos c])
  then show "main [''slideshow.py'', ''one.txt''] example_fs (\<lambda>m. infeasible_result)
       = Inr \<lparr> printed = [NoOptimal, NoSolution], written = None \<rparr>"
    by simp
qed

theorem no_shortcut_for_small_inputs_witness:
  "create_optimized_slideshow (\<lambda>m. optimal_result) [([0], {''a''})]
       = Inr ([OptimalScore 0], [[0]], 0)
   \<and> \<not> feasible (build_model [([0], {''a''})]) optimal_result
   \<and> sound_for (\<lambda>m. infeasible_result) (build_model [([0], {''a''})])
   \<and> create_optimized_slideshow (\<lambda>m. infeasible_result) [([0], {''a''})]
       = Inr ([NoOptimal], [], 0)
   \<and> (\<exists>msgs. main [''slideshow.py'', ''one.txt''] example_fs (\<lambda>m. infeasible_result)
       = Inr \<lparr> printed = msgs @ [NoSolution], written = None \<rparr>)"
proof -
  let ?P = "[([0], {''a''})] :: slide list"
  let ?argv = "[''slideshow.py'', ''one.txt'']"
  let ?opt = "(\<lambda>m. infeasible_result) :: tour_model \<Rightarrow> solver_result"
  let ?unsound = "(\<lambda>m. optimal_result) :: tour_model \<Rightarrow> solver_result"
  have l0: "length ?P \<le> 1" by simp
  have l1: "length ?P = 1" by simp
  have snd: "sound_for ?opt (build_model ?P)"
    by (simp add: sound_for_def infeasible_result_def)
  have h2: "length ?P = 1 \<and> sound_for ?opt (build_model ?P)" using snd by simp
  have h3: "length ?P \<le> 1 \<and> sound_for ?opt (build_model ?P) \<and> length ?argv = 2
       \<and> example_fs (?argv ! 1) = Some single_lines \<and> read_input single_lines = Inr ?P"
    using snd single_photos by (simp add: example_fs_def)
  note T = no_shortcut_for_small_inputs
    [where photos = ?P and optimize = ?opt and sol = optimal_result and argv = ?argv
       and fs = example_fs and lines = single_lines]
  have "create_optimized_slideshow ?unsound ?P =
        (if Status (?unsound (build_model ?P)) = OPTIMAL
         then Inr ([OptimalScore (ObjVal (?unsound (build_model ?P)))],
                   map (\<lambda>photo. sort (fst photo)) ?P,
                   ObjVal (?unsound (build_model ?P)))
         else Inr ([NoOptimal], [], 0))"
    by (rule no_shortcut_for_small_inputs
          [where photos = ?P and optimize = ?unsound, THEN conjunct1, THEN mp, OF l0])
  then have z: "create_optimized_slideshow ?unsound ?P = Inr ([OptimalScore 0], [[0]], 0)"
    by (simp add: optimal_result_def time_limit_result_def)
  have a: "\<not> feasible (build_model ?P) optimal_result"
    by (rule T [THEN conjunct2, THEN conjunct1, THEN mp, OF l1])
  have b: "create_optimized_slideshow ?opt ?P = Inr ([NoOptimal], [], 0)"
    by (rule T [THEN conjunct2, THEN conjunct2, THEN conjunct1, THEN mp, OF h2])
  have c: "\<exists>msgs. main ?argv example_fs ?opt
       = Inr \<lparr> printed = msgs @ [NoSolution], written = None \<rparr>"
    by (rule T [THEN conjunct2, THEN conjunct2, THEN conjunct2, THEN mp, OF h3])
  from z a snd b c show ?thesis by (intro conjI)
qed

end
